theory Spec2Isabelle
  imports Main "HOL-Library.Multiset"
begin

section \<open>Errors raised by the module\<close>

text \<open>
  Every exception that \<^verbatim>\<open>python/mxnet/rnn/io.py\<close> can raise, directly or through the
  Python and NumPy primitives it calls, is a value of this type. The assertion error
  carries its message.
\<close>

datatype error = AssertionError string | KeyError | ValueError | IndexError | StopIteration

section \<open>The encoder\<close>

text \<open>
  A vocabulary is a Python dict from tokens to integers. It is kept as an association
  list in insertion order: \<open>word in vocab\<close> is \<open>map_of vocab word \<noteq> None\<close>, the read
  \<open>vocab[word]\<close> is \<open>map_of vocab word\<close>, and the store \<open>vocab[word] = idx\<close> of a key that
  is not yet present appends the pair.
\<close>

type_synonym vocab = "(string \<times> int) list"

text \<open>The read \<open>vocab[word]\<close>, which raises \<open>KeyError\<close> on a missing key.\<close>

definition vocab_get :: "vocab \<Rightarrow> string \<Rightarrow> error + int" where
  "vocab_get vocab word = (case map_of vocab word of None \<Rightarrow> Inl KeyError | Some c \<Rightarrow> Inr c)"

text \<open>
  The body of the inner loop of \<open>encode_sentences\<close> for one token. The state is the
  dictionary and the counter \<open>idx\<close>; it is returned also when the assertion fails, since
  the dictionary is an object the caller may still hold.
\<close>

definition encode_word ::
  "bool \<Rightarrow> int \<Rightarrow> vocab \<times> int \<Rightarrow> string \<Rightarrow> (error + int) \<times> (vocab \<times> int)" where
  "encode_word new_vocab invalid_label st word =
     (let vocab = fst st; idx = snd st in
      if map_of vocab word = None then
        if \<not> new_vocab then (Inl (AssertionError (''Unknow token '' @ word)), (vocab, idx))
        else
          let idx = (if idx = invalid_label then idx + 1 else idx);
              vocab = vocab @ [(word, idx)];
              idx = idx + 1
          in (vocab_get vocab word, (vocab, idx))
      else (vocab_get vocab word, (vocab, idx)))"

text \<open>The inner loop: one sentence, token by token, stopping at the first exception.\<close>

fun encode_sent ::
  "bool \<Rightarrow> int \<Rightarrow> vocab \<times> int \<Rightarrow> string list \<Rightarrow> (error + int list) \<times> (vocab \<times> int)" where
  "encode_sent new_vocab invalid_label st [] = (Inr [], st)"
| "encode_sent new_vocab invalid_label st (word # sent) =
     (case encode_word new_vocab invalid_label st word of
        (Inl e, st') \<Rightarrow> (Inl e, st')
      | (Inr c, st') \<Rightarrow>
          (case encode_sent new_vocab invalid_label st' sent of
             (Inl e, st'') \<Rightarrow> (Inl e, st'')
           | (Inr coded, st'') \<Rightarrow> (Inr (c # coded), st'')))"

text \<open>The outer loop over the sentences.\<close>

fun encode_loop ::
  "bool \<Rightarrow> int \<Rightarrow> vocab \<times> int \<Rightarrow> string list list \<Rightarrow> (error + int list list) \<times> (vocab \<times> int)" where
  "encode_loop new_vocab invalid_label st [] = (Inr [], st)"
| "encode_loop new_vocab invalid_label st (sent # sentences) =
     (case encode_sent new_vocab invalid_label st sent of
        (Inl e, st') \<Rightarrow> (Inl e, st')
      | (Inr coded, st') \<Rightarrow>
          (case encode_loop new_vocab invalid_label st' sentences of
             (Inl e, st'') \<Rightarrow> (Inl e, st'')
           | (Inr res, st'') \<Rightarrow> (Inr (coded # res), st'')))"

text \<open>
  \<open>encode_sentences sentences vocab invalid_label invalid_key start_label\<close>. The first
  component is the exception or the returned pair \<open>(res, vocab)\<close>; the second is the
  dictionary object (the supplied one, or the fresh one) as the call leaves it.
\<close>

definition encode_sentences ::
  "string list list \<Rightarrow> vocab option \<Rightarrow> int \<Rightarrow> string \<Rightarrow> int
     \<Rightarrow> (error + int list list \<times> vocab) \<times> vocab" where
  "encode_sentences sentences vocab invalid_label invalid_key start_label =
     (let idx = start_label;
          (vocab, new_vocab) =
            (case vocab of None \<Rightarrow> ([(invalid_key, invalid_label)], True)
                         | Some v \<Rightarrow> (v, False))
      in case encode_loop new_vocab invalid_label (vocab, idx) sentences of
           (Inl e, st) \<Rightarrow> (Inl e, fst st)
         | (Inr res, st) \<Rightarrow> (Inr (res, fst st), fst st))"

text \<open>Decoding reads the dictionary backwards: from an index to the token stored with it.\<close>

definition decode :: "vocab \<Rightarrow> int \<Rightarrow> string option" where
  "decode vocab c = map_of (map (\<lambda>(word, i). (i, word)) vocab) c"

section \<open>Python and NumPy primitives used by the iterator\<close>

text \<open>
  \<open>numpy.bincount(x)\<close> for a list of non-negative integers: the array of length
  \<open>max(x) + 1\<close> whose entry \<open>i\<close> counts the occurrences of \<open>i\<close> in \<open>x\<close>. For the empty
  list current NumPy returns the empty array; releases that reject an empty argument
  raise \<open>ValueError\<close> there, which is also what the constructor ends with in this model.
\<close>

definition bincount :: "nat list \<Rightarrow> nat list" where
  "bincount x = (if x = [] then [] else map (count_list x) [0..<Suc (Max (set x))])"

text \<open>
  \<open>bisect.bisect_left(a, x)\<close>: the binary search of the standard library,
  \<^verbatim>\<open>while lo < hi: mid = (lo+hi)//2; if a[mid] < x: lo = mid+1 else: hi = mid\<close>.
\<close>

function bisect_left_loop :: "int list \<Rightarrow> int \<Rightarrow> nat \<Rightarrow> nat \<Rightarrow> nat" where
  "bisect_left_loop a x lo hi =
     (if lo < hi then
        let mid = (lo + hi) div 2 in
        if a ! mid < x then bisect_left_loop a x (mid + 1) hi
        else bisect_left_loop a x lo mid
      else lo)"
  by pat_completeness auto
termination
  by (relation "measure (\<lambda>(a, x, lo, hi). hi - lo)") auto

declare bisect_left_loop.simps [simp del]

definition bisect_left :: "int list \<Rightarrow> int \<Rightarrow> nat" where
  "bisect_left a x = bisect_left_loop a x 0 (length a)"

text \<open>\<open>max(xs)\<close>, which raises \<open>ValueError\<close> on an empty sequence.\<close>

definition py_max :: "int list \<Rightarrow> error + int" where
  "py_max xs = (case xs of [] \<Rightarrow> Inl ValueError | y # ys \<Rightarrow> Inr (fold max ys y))"

text \<open>
  \<open>range(start, stop, step)\<close> (a list in Python 2): \<open>ValueError\<close> for a zero step, the
  ascending progression below \<open>stop\<close> for a positive step, the descending one above
  \<open>stop\<close> for a negative step.
\<close>

definition py_range :: "int \<Rightarrow> int \<Rightarrow> int \<Rightarrow> error + int list" where
  "py_range start stop step =
     (if step = 0 then Inl ValueError
      else if 0 < step then
        Inr (map (\<lambda>k. start + int k * step) [0..<nat ((stop - start + step - 1) div step)])
      else
        Inr (map (\<lambda>k. start + int k * step) [0..<nat ((start - stop - step - 1) div (- step))]))"

text \<open>
  The slice \<open>xs[lo:hi]\<close> along the first axis: a negative bound counts from the end, and
  both bounds are clipped to the length.
\<close>

definition slice_bound :: "nat \<Rightarrow> int \<Rightarrow> nat" where
  "slice_bound n i = (if i < 0 then nat (max (i + int n) 0) else min (nat i) n)"

definition py_slice :: "'a list \<Rightarrow> int \<Rightarrow> int \<Rightarrow> 'a list" where
  "py_slice xs lo hi =
     (let l = slice_bound (length xs) lo; h = slice_bound (length xs) hi
      in take (h - l) (drop l xs))"

text \<open>The read \<open>xs[i]\<close> with a non-negative index, which raises \<open>IndexError\<close> out of range.\<close>

definition py_nth :: "'a list \<Rightarrow> nat \<Rightarrow> error + 'a" where
  "py_nth xs i = (if i < length xs then Inr (xs ! i) else Inl IndexError)"

text \<open>
  \<open>random.shuffle(x)\<close> and \<open>numpy.random.shuffle(x)\<close> are the same in-place loop,
  \<^verbatim>\<open>for i in reversed(range(1, len(x))): j = randbelow(i + 1); x[i], x[j] = x[j], x[i]\<close>,
  NumPy's acting on the rows of a two-dimensional array. A generator is the stream of
  the raw numbers it will draw; a draw below \<open>i + 1\<close> reduces the next one.
\<close>

type_synonym rng = "nat \<Rightarrow> nat"

fun shuffle_loop :: "nat \<Rightarrow> 'a list \<Rightarrow> rng \<Rightarrow> 'a list \<times> rng" where
  "shuffle_loop 0 x g = (x, g)"
| "shuffle_loop (Suc i) x g =
     (let j = g 0 mod (Suc i + 1)
      in shuffle_loop i (x[Suc i := x ! j, j := x ! Suc i]) (\<lambda>n. g (Suc n)))"

definition shuffle :: "'a list \<Rightarrow> rng \<Rightarrow> 'a list \<times> rng" where
  "shuffle x g = shuffle_loop (length x - 1) x g"

section \<open>The bucketing iterator\<close>

subsection \<open>Construction\<close>

text \<open>
  The bucket set derived when none is supplied:
  \<^verbatim>\<open>[i for i, j in enumerate(np.bincount([len(s) for s in sentences])) if j >= batch_size]\<close>.
\<close>

definition derive_buckets :: "int list list \<Rightarrow> int \<Rightarrow> int list" where
  "derive_buckets sentences batch_size =
     map (\<lambda>(i, j). int i)
       (filter (\<lambda>(i, j). batch_size \<le> int j) (enumerate 0 (bincount (map length sentences))))"

text \<open>
  The array element type \<open>dtype\<close> is the conversion from a Python integer to a value of
  that type. One padded row is \<open>np.full((width,), invalid_label, dtype)\<close> with its
  first \<open>len(sent)\<close> positions overwritten by the sentence; NumPy raises \<open>ValueError\<close> for
  a negative width and for a sentence longer than the row.
\<close>

definition pad_row :: "(int \<Rightarrow> 'a) \<Rightarrow> int \<Rightarrow> int \<Rightarrow> int list \<Rightarrow> error + 'a list" where
  "pad_row dtype invalid_label width sent =
     (if width < int (length sent) then Inl ValueError
      else
        let buff = replicate (nat width) (dtype invalid_label)
        in Inr (map dtype sent @ drop (length sent) buff))"

text \<open>
  The loop that assigns every sentence to a bucket or discards it. The state is the list
  of row collections \<open>self.data\<close> and the counter \<open>ndiscard\<close>.
\<close>

fun assign_loop ::
  "(int \<Rightarrow> 'a) \<Rightarrow> int \<Rightarrow> int list \<Rightarrow> int list list \<Rightarrow> 'a list list list \<times> nat
     \<Rightarrow> error + 'a list list list \<times> nat" where
  "assign_loop dtype invalid_label buckets [] st = Inr st"
| "assign_loop dtype invalid_label buckets (sent # sentences) st =
     (let buck = bisect_left buckets (int (length sent)) in
      if buck = length buckets then
        assign_loop dtype invalid_label buckets sentences (fst st, snd st + 1)
      else
        case pad_row dtype invalid_label (buckets ! buck) sent of
          Inl e \<Rightarrow> Inl e
        | Inr buff \<Rightarrow>
            assign_loop dtype invalid_label buckets sentences
              ((fst st)[buck := fst st ! buck @ [buff]], snd st))"

text \<open>
  The loop that builds the index table from the enumerated bucket arrays:
  \<^verbatim>\<open>self.idx.extend([(i, j) for j in range(0, len(buck) - batch_size + 1, batch_size)])\<close>.
\<close>

fun index_loop ::
  "int \<Rightarrow> (nat \<times> 'r list) list \<Rightarrow> (nat \<times> int) list \<Rightarrow> error + (nat \<times> int) list" where
  "index_loop batch_size [] acc = Inr acc"
| "index_loop batch_size ((i, buck) # rest) acc =
     (case py_range 0 (int (length buck) - batch_size + 1) batch_size of
        Inl e \<Rightarrow> Inl e
      | Inr js \<Rightarrow> index_loop batch_size rest (acc @ map (\<lambda>j. (i, j)) js))"

text \<open>
  The iterator object. A bucket array is the list of its rows; an array built from no
  rows is the one-dimensional empty array.
\<close>

record 'a BucketSentenceIter =
  self_data :: "'a list list list"
  self_default_bucket_key :: int
  self_provide_data :: "(string \<times> int \<times> int) list"
  self_provide_label :: "(string \<times> int \<times> int) list"
  self_batch_size :: int
  self_buckets :: "int list"
  self_data_name :: string
  self_label_name :: string
  self_dtype :: "int \<Rightarrow> 'a"
  self_invalid_label :: int
  self_idx :: "(nat \<times> int) list"
  self_curr_idx :: nat

text \<open>
  What a call of the constructor leaves behind: the caller's \<open>buckets\<close> argument (a list
  object, or \<open>None\<close>) as it is after the call, the discard counts printed by the warning
  line, and the exception or the constructed iterator.
\<close>

record 'a init_outcome =
  buckets_arg :: "int list option"
  printed :: "nat list"
  returned :: "error + 'a BucketSentenceIter"

definition BucketSentenceIter_init ::
  "int list list \<Rightarrow> int \<Rightarrow> int \<Rightarrow> (int \<Rightarrow> 'a) \<Rightarrow> int list option \<Rightarrow> string \<Rightarrow> string
     \<Rightarrow> 'a init_outcome" where
  "BucketSentenceIter_init sentences batch_size invalid_label dtype buckets data_name label_name =
     (let bks = (case buckets of
                   None \<Rightarrow> derive_buckets sentences batch_size
                 | Some b \<Rightarrow> if b = [] then derive_buckets sentences batch_size else b);
          bks = sort bks;
          arg = (case buckets of
                   None \<Rightarrow> None
                 | Some b \<Rightarrow> if b = [] then Some b else Some bks)
      in
      case assign_loop dtype invalid_label bks sentences (map (\<lambda>_. []) bks, 0) of
        Inl e \<Rightarrow> \<lparr>buckets_arg = arg, printed = [], returned = Inl e\<rparr>
      | Inr (dat, ndiscard) \<Rightarrow>
          (case py_max bks of
             Inl e \<Rightarrow> \<lparr>buckets_arg = arg, printed = [ndiscard], returned = Inl e\<rparr>
           | Inr key \<Rightarrow>
               (case index_loop batch_size (enumerate 0 dat) [] of
                  Inl e \<Rightarrow> \<lparr>buckets_arg = arg, printed = [ndiscard], returned = Inl e\<rparr>
                | Inr ix \<Rightarrow>
                    \<lparr>buckets_arg = arg, printed = [ndiscard],
                     returned = Inr
                       \<lparr>self_data = dat,
                        self_default_bucket_key = key,
                        self_provide_data = [(data_name, (batch_size, key))],
                        self_provide_label = [(label_name, (batch_size, key))],
                        self_batch_size = batch_size,
                        self_buckets = bks,
                        self_data_name = data_name,
                        self_label_name = label_name,
                        self_dtype = dtype,
                        self_invalid_label = invalid_label,
                        self_idx = ix,
                        self_curr_idx = 0\<rparr>\<rparr>)))"

subsection \<open>reset\<close>

text \<open>The loop \<^verbatim>\<open>for buck in self.data: np.random.shuffle(buck)\<close>, threading NumPy's generator.\<close>

fun shuffle_buckets :: "'r list list \<Rightarrow> rng \<Rightarrow> 'r list list \<times> rng" where
  "shuffle_buckets [] g = ([], g)"
| "shuffle_buckets (buck # rest) g =
     (let (buck', g') = shuffle buck g;
          (rest', g'') = shuffle_buckets rest g'
      in (buck' # rest', g''))"

text \<open>
  \<open>reset\<close>, given the generator of Python's \<open>random\<close> module and the generator of
  \<open>numpy.random\<close>, which are separate objects.
\<close>

definition BucketSentenceIter_reset ::
  "rng \<Rightarrow> rng \<Rightarrow> 'a BucketSentenceIter \<Rightarrow> 'a BucketSentenceIter" where
  "BucketSentenceIter_reset py_random np_random self =
     self\<lparr>self_curr_idx := 0,
          self_idx := fst (shuffle (self_idx self) py_random),
          self_data := fst (shuffle_buckets (self_data self) np_random)\<rparr>"

subsection \<open>next\<close>

record 'a DataBatch =
  db_data :: "'a list list list"
  db_label :: "'a list list list"
  db_bucket_key :: int
  db_provide_data :: "(string \<times> int \<times> int) list"
  db_provide_label :: "(string \<times> int \<times> int) list"

text \<open>
  The label of a slice \<open>dat\<close> of the bucket array \<open>arr\<close>:
  \<^verbatim>\<open>label = np.empty_like(data); label[:, :-1] = data[:, 1:]; label[:, -1] = invalid_label\<close>.
  A slice of the one-dimensional empty array has no second axis, and a row of width 0
  has no last position: NumPy raises \<open>IndexError\<close> for both.
\<close>

definition shift_label :: "'a \<Rightarrow> 'a list list \<Rightarrow> 'a list list \<Rightarrow> error + 'a list list" where
  "shift_label fill arr dat =
     (if arr = [] then Inl IndexError
      else if length (hd arr) = 0 then Inl IndexError
      else Inr (map (\<lambda>row. tl row @ [fill]) dat))"

text \<open>
  \<open>next\<close> returns the exception or the batch, and the iterator as the call leaves it:
  the cursor is advanced before the batch is cut, so it stays advanced when cutting fails.
\<close>

definition BucketSentenceIter_next ::
  "'a BucketSentenceIter \<Rightarrow> (error + 'a DataBatch) \<times> 'a BucketSentenceIter" where
  "BucketSentenceIter_next self =
     (if self_curr_idx self = length (self_idx self) then (Inl StopIteration, self)
      else
        case py_nth (self_idx self) (self_curr_idx self) of
          Inl e \<Rightarrow> (Inl e, self)
        | Inr (i, j) \<Rightarrow>
            let self = self\<lparr>self_curr_idx := self_curr_idx self + 1\<rparr> in
            (case py_nth (self_data self) i of
               Inl e \<Rightarrow> (Inl e, self)
             | Inr arr \<Rightarrow>
                 let dat = py_slice arr j (j + self_batch_size self) in
                 (case shift_label (self_dtype self (self_invalid_label self)) arr dat of
                    Inl e \<Rightarrow> (Inl e, self)
                  | Inr label \<Rightarrow>
                      (case py_nth (self_buckets self) i of
                         Inl e \<Rightarrow> (Inl e, self)
                       | Inr key \<Rightarrow>
                           let shape = (int (length dat), int (length (hd arr))) in
                           (Inr \<lparr>db_data = [dat], db_label = [label], db_bucket_key = key,
                                 db_provide_data = [(self_data_name self, shape)],
                                 db_provide_label = [(self_label_name self, shape)]\<rparr>,
                            self)))))"

subsection \<open>Reachable iterators and epochs\<close>

text \<open>
  The iterator states a caller can obtain: from a successful construction, and from any
  reachable state by a call of \<open>reset\<close> or of \<open>next\<close>.
\<close>

inductive reachable :: "'a BucketSentenceIter \<Rightarrow> bool" where
  reachable_init:
    "returned (BucketSentenceIter_init sentences batch_size invalid_label dtype buckets
                 data_name label_name) = Inr self \<Longrightarrow> reachable self"
| reachable_reset:
    "reachable self \<Longrightarrow> reachable (BucketSentenceIter_reset py_random np_random self)"
| reachable_next:
    "reachable self \<Longrightarrow> reachable (snd (BucketSentenceIter_next self))"

text \<open>The results of \<open>n\<close> consecutive calls of \<open>next\<close>, in call order.\<close>

fun next_calls :: "nat \<Rightarrow> 'a BucketSentenceIter \<Rightarrow> (error + 'a DataBatch) list" where
  "next_calls 0 self = []"
| "next_calls (Suc n) self =
     (case BucketSentenceIter_next self of (r, self') \<Rightarrow> r # next_calls n self')"

definition is_stop :: "error + 'b \<Rightarrow> bool" where
  "is_stop r = (case r of Inl StopIteration \<Rightarrow> True | _ \<Rightarrow> False)"

definition is_batch :: "error + 'b \<Rightarrow> bool" where
  "is_batch r = (case r of Inl _ \<Rightarrow> False | Inr _ \<Rightarrow> True)"

section \<open>Auxiliary definitions for the proofs\<close>

text \<open>
  While a fresh vocabulary is built, the dictionary is the reserved pair followed by the
  tokens added so far: their keys differ from the reserved key and from each other, and
  their indices are distinct, below the counter and different from the reserved index.
\<close>

definition vocab_inv :: "int \<Rightarrow> string \<Rightarrow> vocab \<times> int \<Rightarrow> bool" where
  "vocab_inv il ik st =
     (\<exists>r. fst st = (ik, il) # r \<and> ik \<notin> fst ` set r \<and> distinct (map fst r) \<and> distinct (map snd r)
          \<and> (\<forall>c \<in> snd ` set r. c < snd st \<and> c \<noteq> il))"

text \<open>
  The bucket set as the specification words it, for comparison with \<open>derive_buckets\<close>:
  the ascending sequence of the distinct positive sentence lengths that at least
  \<open>batch_size\<close> sentences have.
\<close>

definition claimed_bucket_set :: "int list list \<Rightarrow> int \<Rightarrow> int list" where
  "claimed_bucket_set sentences batch_size =
     sort (remdups (map int (filter
       (\<lambda>l. 0 < l \<and> batch_size \<le> int (count_list (map length sentences) l))
       (map length sentences))))"

text \<open>The bucket set the constructor works with, after \<open>buckets.sort()\<close>.\<close>

definition chosen_buckets :: "int list list \<Rightarrow> int \<Rightarrow> int list option \<Rightarrow> int list" where
  "chosen_buckets sentences batch_size buckets =
     sort (case buckets of
             None \<Rightarrow> derive_buckets sentences batch_size
           | Some b \<Rightarrow> if b = [] then derive_buckets sentences batch_size else b)"

text \<open>
  The states at which an epoch starts: a freshly constructed iterator, and any reachable
  iterator after a call of \<open>reset\<close>.
\<close>

inductive epoch_start :: "'a BucketSentenceIter \<Rightarrow> bool" where
  epoch_start_init:
    "returned (BucketSentenceIter_init sentences batch_size invalid_label dtype buckets
                 data_name label_name) = Inr self \<Longrightarrow> epoch_start self"
| epoch_start_reset:
    "reachable self \<Longrightarrow> epoch_start (BucketSentenceIter_reset py_random np_random self)"

text \<open>
  Among the first \<open>n\<close> calls of \<open>next\<close>, the number of those made before the first stop
  condition that return a batch.
\<close>

definition successful_calls :: "nat \<Rightarrow> 'a BucketSentenceIter \<Rightarrow> nat" where
  "successful_calls n self =
     length (filter is_batch (takeWhile (\<lambda>r. \<not> is_stop r) (next_calls n self)))"

text \<open>
  What holds of every reachable iterator: one array per bucket; the cursor within the
  index table; every row as wide as its bucket; every index entry a full batch inside its
  bucket array; and, for a positive batch size, as many entries as full batches.
\<close>

definition iter_inv :: "'a BucketSentenceIter \<Rightarrow> bool" where
  "iter_inv self =
     (length (self_data self) = length (self_buckets self)
      \<and> self_curr_idx self \<le> length (self_idx self)
      \<and> (\<forall>k<length (self_data self). \<forall>r \<in> set (self_data self ! k).
            int (length r) = self_buckets self ! k)
      \<and> (\<forall>(i, j) \<in> set (self_idx self).
            0 < self_batch_size self \<and> i < length (self_data self) \<and> 0 \<le> j
            \<and> j + self_batch_size self \<le> int (length (self_data self ! i)))
      \<and> (0 < self_batch_size self \<longrightarrow>
            length (self_idx self)
              = sum_list (map (\<lambda>B. length B div nat (self_batch_size self)) (self_data self))))"


section \<open>Properties of the encoder\<close>

lemma find_append_case:
  "find P (xs @ ys) = (case find P xs of None \<Rightarrow> find P ys | Some x \<Rightarrow> Some x)"
  by (induction xs) auto

lemma find_SomeD:
  "find P xs = Some x \<Longrightarrow> x \<in> set xs \<and> P x"
  by (induction xs) (auto split: if_splits)

lemma encode_word_closed:
  "encode_word False il (v, i) w =
     (case map_of v w of
        None \<Rightarrow> (Inl (AssertionError (''Unknow token '' @ w)), (v, i))
      | Some c \<Rightarrow> (Inr c, (v, i)))"
  by (simp add: encode_word_def vocab_get_def split: option.splits)

lemma encode_sent_closed:
  "encode_sent False il (v, i) ws =
     (case find (\<lambda>w. map_of v w = None) ws of
        None \<Rightarrow> (Inr (map (\<lambda>w. the (map_of v w)) ws), (v, i))
      | Some w \<Rightarrow> (Inl (AssertionError (''Unknow token '' @ w)), (v, i)))"
  by (induction ws) (auto simp: encode_word_closed split: option.splits)

lemma encode_loop_closed:
  "encode_loop False il (v, i) ss =
     (case find (\<lambda>w. map_of v w = None) (concat ss) of
        None \<Rightarrow> (Inr (map (map (\<lambda>w. the (map_of v w))) ss), (v, i))
      | Some w \<Rightarrow> (Inl (AssertionError (''Unknow token '' @ w)), (v, i)))"
  by (induction ss) (auto simp: encode_sent_closed find_append_case split: option.splits)

lemma encode_sentences_closed:
  "encode_sentences ss (Some v) il ik sl =
     (case find (\<lambda>w. map_of v w = None) (concat ss) of
        None \<Rightarrow> (Inr (map (map (\<lambda>w. the (map_of v w))) ss, v), v)
      | Some w \<Rightarrow> (Inl (AssertionError (''Unknow token '' @ w)), v))"
  by (simp add: encode_sentences_def encode_loop_closed split: option.splits)

lemma encode_word_open:
  assumes "vocab_inv il ik st"
  shows "\<exists>c st'. encode_word True il st w = (Inr c, st') \<and> vocab_inv il ik st'
           \<and> set (fst st) \<subseteq> set (fst st') \<and> (w, c) \<in> set (fst st')"
proof -
  from assms obtain r where r: "fst st = (ik, il) # r" "ik \<notin> fst ` set r"
    "distinct (map fst r)" "distinct (map snd r)" "\<forall>c \<in> snd ` set r. c < snd st \<and> c \<noteq> il"
    unfolding vocab_inv_def by blast
  show ?thesis
  proof (cases "map_of (fst st) w")
    case (Some c)
    then have "(w, c) \<in> set (fst st)" by (rule map_of_SomeD)
    moreover have "encode_word True il st w = (Inr c, st)"
      using Some by (simp add: encode_word_def vocab_get_def)
    ultimately show ?thesis using assms by blast
  next
    case None
    define i1 where "i1 = (if snd st = il then snd st + 1 else snd st)"
    have "w \<notin> fst ` set (fst st)" using None by (simp add: map_of_eq_None_iff)
    then have w: "w \<noteq> ik" "w \<notin> fst ` set r"
      unfolding r(1) by auto
    have enc: "encode_word True il st w = (Inr i1, (fst st @ [(w, i1)], i1 + 1))"
      using None by (simp add: encode_word_def vocab_get_def i1_def map_add_def Let_def)
    have i1: "i1 \<noteq> il" "snd st \<le> i1" by (auto simp: i1_def)
    have fresh: "i1 \<notin> snd ` set r" using r(5) i1(2) by fastforce
    have "vocab_inv il ik (fst st @ [(w, i1)], i1 + 1)"
      unfolding vocab_inv_def
    proof (intro exI conjI)
      show "fst (fst st @ [(w, i1)], i1 + 1) = (ik, il) # (r @ [(w, i1)])" using r(1) by simp
      show "ik \<notin> fst ` set (r @ [(w, i1)])" using r(2) w(1) by auto
      show "distinct (map fst (r @ [(w, i1)]))" using r(3) w(2) by auto
      show "distinct (map snd (r @ [(w, i1)]))" using r(4) fresh by auto
      show "\<forall>c\<in>snd ` set (r @ [(w, i1)]). c < snd (fst st @ [(w, i1)], i1 + 1) \<and> c \<noteq> il"
        using r(5) i1 by fastforce
    qed
    with enc show ?thesis by auto
  qed
qed

lemma encode_sent_open:
  assumes "vocab_inv il ik st"
  shows "\<exists>cs st'. encode_sent True il st ws = (Inr cs, st') \<and> vocab_inv il ik st'
           \<and> set (fst st) \<subseteq> set (fst st') \<and> list_all2 (\<lambda>w c. (w, c) \<in> set (fst st')) ws cs"
  using assms
proof (induction ws arbitrary: st)
  case Nil
  then show ?case by simp
next
  case (Cons w ws)
  from encode_word_open[OF Cons.prems, of w] obtain c st1 where
    1: "encode_word True il st w = (Inr c, st1)" "vocab_inv il ik st1"
       "set (fst st) \<subseteq> set (fst st1)" "(w, c) \<in> set (fst st1)" by blast
  from Cons.IH[OF 1(2)] obtain cs st2 where
    2: "encode_sent True il st1 ws = (Inr cs, st2)" "vocab_inv il ik st2"
       "set (fst st1) \<subseteq> set (fst st2)" "list_all2 (\<lambda>w c. (w, c) \<in> set (fst st2)) ws cs" by blast
  have "encode_sent True il st (w # ws) = (Inr (c # cs), st2)" using 1(1) 2(1) by simp
  moreover have "list_all2 (\<lambda>w c. (w, c) \<in> set (fst st2)) (w # ws) (c # cs)"
    using 1(4) 2(3) 2(4) by auto
  ultimately show ?case using 2(2) 1(3) 2(3) by blast
qed

lemma encode_loop_open:
  assumes "vocab_inv il ik st"
  shows "\<exists>res st'. encode_loop True il st ss = (Inr res, st') \<and> vocab_inv il ik st'
           \<and> set (fst st) \<subseteq> set (fst st')
           \<and> list_all2 (list_all2 (\<lambda>w c. (w, c) \<in> set (fst st'))) ss res"
  using assms
proof (induction ss arbitrary: st)
  case Nil
  then show ?case by simp
next
  case (Cons s ss)
  from encode_sent_open[OF Cons.prems, of s] obtain cs st1 where
    1: "encode_sent True il st s = (Inr cs, st1)" "vocab_inv il ik st1"
       "set (fst st) \<subseteq> set (fst st1)" "list_all2 (\<lambda>w c. (w, c) \<in> set (fst st1)) s cs" by blast
  from Cons.IH[OF 1(2)] obtain res st2 where
    2: "encode_loop True il st1 ss = (Inr res, st2)" "vocab_inv il ik st2"
       "set (fst st1) \<subseteq> set (fst st2)"
       "list_all2 (list_all2 (\<lambda>w c. (w, c) \<in> set (fst st2))) ss res" by blast
  have "encode_loop True il st (s # ss) = (Inr (cs # res), st2)" using 1(1) 2(1) by simp
  moreover have "list_all2 (\<lambda>w c. (w, c) \<in> set (fst st2)) s cs"
    using 1(4) 2(3) by (auto elim!: list_all2_mono)
  ultimately show ?case using 2(2) 1(3) 2(3) 2(4) by auto
qed

lemma encode_sentences_open:
  "\<exists>res v i. encode_sentences ss None il ik sl = (Inr (res, v), v) \<and> vocab_inv il ik (v, i)
      \<and> list_all2 (list_all2 (\<lambda>w c. (w, c) \<in> set v)) ss res"
proof -
  have "vocab_inv il ik ([(ik, il)], sl)" by (simp add: vocab_inv_def)
  from encode_loop_open[OF this, of ss] obtain res st' where
    "encode_loop True il ([(ik, il)], sl) ss = (Inr res, st')" "vocab_inv il ik st'"
    "list_all2 (list_all2 (\<lambda>w c. (w, c) \<in> set (fst st'))) ss res" by blast
  then show ?thesis
    by (intro exI[of _ res] exI[of _ "fst st'"] exI[of _ "snd st'"])
       (simp add: encode_sentences_def)
qed

lemma vocab_inv_distinct:
  assumes "vocab_inv il ik (v, i)"
  shows "distinct (map fst v)" "distinct (map snd v)" "map_of v ik = Some il"
    "w \<noteq> ik \<Longrightarrow> map_of v w \<noteq> Some il"
proof -
  from assms obtain r where r: "v = (ik, il) # r" "ik \<notin> fst ` set r"
    "distinct (map fst r)" "distinct (map snd r)" "\<forall>c \<in> snd ` set r. c < i \<and> c \<noteq> il"
    unfolding vocab_inv_def by auto
  show "distinct (map fst v)" using r by auto
  show "distinct (map snd v)" using r by force
  show "map_of v ik = Some il" using r by simp
  show "map_of v w \<noteq> Some il" if "w \<noteq> ik"
  proof
    assume "map_of v w = Some il"
    then have "(w, il) \<in> set r" using that r(1) by (auto dest: map_of_SomeD split: if_splits)
    then show False using r(5) by force
  qed
qed

lemma decode_member:
  assumes "distinct (map snd v)" "(w, c) \<in> set v"
  shows "decode v c = Some w"
proof -
  have "distinct (map fst (map (\<lambda>(word, i). (i, word)) v))"
    using assms(1) by (simp add: comp_def case_prod_unfold)
  moreover have "(c, w) \<in> set (map (\<lambda>(word, i). (i, word)) v)" using assms(2) by force
  ultimately show ?thesis unfolding decode_def by (rule map_of_is_SomeI)
qed

lemma decode_all:
  assumes "distinct (map snd v)" "list_all2 (list_all2 (\<lambda>w c. (w, c) \<in> set v)) ss res"
  shows "map (map (decode v)) res = map (map Some) ss"
proof -
  have row: "map (decode v) cs = map Some ws" if "list_all2 (\<lambda>w c. (w, c) \<in> set v) ws cs" for ws cs
    using that by (induction rule: list_all2_induct) (auto simp: decode_member[OF assms(1)])
  show ?thesis using assms(2) by (induction rule: list_all2_induct) (auto simp: row)
qed

text \<open>
  C7: with a supplied vocabulary, if some token of some sentence is absent from it, the
  call fails with the assertion error whose message names the first absent token, and the
  vocabulary is as it was; if every token is present, the call succeeds, each token is
  encoded by its entry, and the vocabulary is returned unchanged.
\<close>

theorem encode_sentences_closed_vocabulary:
  "((\<exists>w \<in> set (concat sentences). map_of vocab w = None) \<longrightarrow>
      (\<exists>w \<in> set (concat sentences). map_of vocab w = None
         \<and> find (\<lambda>w. map_of vocab w = None) (concat sentences) = Some w
         \<and> encode_sentences sentences (Some vocab) invalid_label invalid_key start_label
             = (Inl (AssertionError (''Unknow token '' @ w)), vocab)))
   \<and> ((\<forall>w \<in> set (concat sentences). map_of vocab w \<noteq> None) \<longrightarrow>
      (\<exists>res. encode_sentences sentences (Some vocab) invalid_label invalid_key start_label
                = (Inr (res, vocab), vocab)
         \<and> map (map (map_of vocab)) sentences = map (map Some) res))"
proof (intro conjI impI)
  assume "\<exists>w \<in> set (concat sentences). map_of vocab w = None"
  then obtain w where w: "find (\<lambda>w. map_of vocab w = None) (concat sentences) = Some w"
    by (cases "find (\<lambda>w. map_of vocab w = None) (concat sentences)") (auto simp: find_None_iff)
  then have "w \<in> set (concat sentences)" "map_of vocab w = None"
    using find_SomeD[OF w] by blast+
  then show "\<exists>w \<in> set (concat sentences). map_of vocab w = None
         \<and> find (\<lambda>w. map_of vocab w = None) (concat sentences) = Some w
         \<and> encode_sentences sentences (Some vocab) invalid_label invalid_key start_label
             = (Inl (AssertionError (''Unknow token '' @ w)), vocab)"
    using w by (intro bexI[of _ w]) (simp_all add: encode_sentences_closed)
next
  assume all: "\<forall>w \<in> set (concat sentences). map_of vocab w \<noteq> None"
  then have "find (\<lambda>w. map_of vocab w = None) (concat sentences) = None"
    unfolding find_None_iff by blast
  then have "encode_sentences sentences (Some vocab) invalid_label invalid_key start_label
      = (Inr (map (map (\<lambda>w. the (map_of vocab w))) sentences, vocab), vocab)"
    by (simp add: encode_sentences_closed)
  moreover have "map (map (map_of vocab)) sentences
      = map (map Some) (map (map (\<lambda>w. the (map_of vocab w))) sentences)"
    using all by (auto simp: comp_def)
  ultimately show "\<exists>res. encode_sentences sentences (Some vocab) invalid_label invalid_key start_label
                = (Inr (res, vocab), vocab)
         \<and> map (map (map_of vocab)) sentences = map (map Some) res" by blast
qed

theorem encode_sentences_closed_vocabulary_witness:
  "map_of [(''a'', 0)] ''b'' = None
   \<and> encode_sentences [[''a'', ''b''], [''c'']] (Some [(''a'', 0)]) (- 1) ''n'' 0
       = (Inl (AssertionError ''Unknow token b''), [(''a'', 0)])
   \<and> map_of [(''a'', 0), (''b'', 5)] ''a'' \<noteq> None \<and> map_of [(''a'', 0), (''b'', 5)] ''b'' \<noteq> None
   \<and> encode_sentences [[''b'', ''a''], [''b'']] (Some [(''a'', 0), (''b'', 5)]) (- 1) ''n'' 0
       = (Inr ([[5, 0], [5]], [(''a'', 0), (''b'', 5)]), [(''a'', 0), (''b'', 5)])"
  using encode_sentences_closed_vocabulary[of "[[''a'', ''b''], [''c'']]" "[(''a'', 0)]" "- 1" "''n''" 0]
    encode_sentences_closed_vocabulary[of "[[''b'', ''a''], [''b'']]" "[(''a'', 0), (''b'', 5)]" "- 1" "''n''" 0]
  by (simp add: encode_sentences_closed)

text \<open>
  C5: with no vocabulary supplied, for every start label and invalid label the call
  succeeds and, in the returned vocabulary, the invalid key maps to the invalid label
  and no other token does.
\<close>

theorem encode_sentences_reserves_invalid_label:
  assumes "w \<noteq> invalid_key"
  shows "\<exists>res vocab.
           encode_sentences sentences None invalid_label invalid_key start_label
             = (Inr (res, vocab), vocab)
           \<and> map_of vocab invalid_key = Some invalid_label
           \<and> map_of vocab w \<noteq> Some invalid_label"
proof -
  obtain res v i where
    "encode_sentences sentences None invalid_label invalid_key start_label = (Inr (res, v), v)"
    "vocab_inv invalid_label invalid_key (v, i)"
    using encode_sentences_open by blast
  then show ?thesis using vocab_inv_distinct(3,4) assms by blast
qed

theorem encode_sentences_reserves_invalid_label_witness:
  "''b'' \<noteq> ''n''
   \<and> encode_sentences [[''a'', ''b'']] None 1 ''n'' 0
       = (Inr ([[0, 2]], [(''n'', 1), (''a'', 0), (''b'', 2)]), [(''n'', 1), (''a'', 0), (''b'', 2)])
   \<and> map_of [(''n'', 1), (''a'', 0), (''b'', 2)] ''n'' = Some (1::int)
   \<and> map_of [(''n'', 1), (''a'', 0), (''b'', 2)] ''b'' \<noteq> Some (1::int)"
  using encode_sentences_reserves_invalid_label[of "''b''" "''n''" "[[''a'', ''b'']]" 1 0]
  by (simp add: encode_sentences_def encode_word_def vocab_get_def)

text \<open>
  C8: with no vocabulary supplied, decoding every index of the result through the
  returned vocabulary read backwards gives back every token of every sentence, in the
  same shape and order; the returned vocabulary has distinct keys and distinct indices.
\<close>

theorem encode_then_decode_roundtrip:
  "\<exists>res vocab.
     encode_sentences sentences None invalid_label invalid_key start_label
       = (Inr (res, vocab), vocab)
     \<and> map (map (decode vocab)) res = map (map Some) sentences
     \<and> distinct (map fst vocab) \<and> distinct (map snd vocab)"
proof -
  obtain res v i where
    "encode_sentences sentences None invalid_label invalid_key start_label = (Inr (res, v), v)"
    "vocab_inv invalid_label invalid_key (v, i)"
    "list_all2 (list_all2 (\<lambda>w c. (w, c) \<in> set v)) sentences res"
    using encode_sentences_open by blast
  then show ?thesis
    using vocab_inv_distinct(1,2) decode_all[of v sentences res]
    by blast
qed

section \<open>Construction: the bucket set\<close>

lemma enumerate_map_upt:
  "enumerate 0 (map f [0..<n]) = map (\<lambda>i. (i, f i)) [0..<n]"
  by (simp add: enumerate_eq_zip zip_map2 zip_same_conv_map)

lemma derive_buckets_eq:
  "derive_buckets ss bs =
     map int (filter (\<lambda>l. bs \<le> int (count_list (map length ss) l))
       [0..<(if ss = [] then 0 else Suc (Max (set (map length ss))))])"
  by (simp add: derive_buckets_def bincount_def enumerate_map_upt filter_map comp_def
        del: upt_Suc)

lemma derive_buckets_strict_sorted: "sorted_wrt (<) (derive_buckets ss bs)"
  unfolding derive_buckets_eq
  by (simp add: sorted_wrt_map sorted_wrt_filter strict_sorted_iff)

lemma derive_buckets_sort: "sort (derive_buckets ss bs) = derive_buckets ss bs"
  using derive_buckets_strict_sorted[of ss bs]
  by (simp add: strict_sorted_iff sorted_sort_id)

lemma derive_buckets_set:
  "set (derive_buckets ss bs) =
     {int l | l. (\<exists>s \<in> set ss. l \<le> length s) \<and> bs \<le> int (count_list (map length ss) l)}"
proof (cases "ss = []")
  case True
  then show ?thesis by (simp add: derive_buckets_eq)
next
  case False
  then have "l < Suc (Max (set (map length ss))) \<longleftrightarrow> (\<exists>s \<in> set ss. l \<le> length s)" for l
    by (simp add: less_Suc_eq_le Max_ge_iff)
  then show ?thesis using False by (auto simp: derive_buckets_eq simp del: upt_Suc)
qed

lemma bisect_left_empty: "bisect_left [] x = 0"
  by (simp add: bisect_left_def bisect_left_loop.simps)

lemma assign_loop_no_buckets:
  "assign_loop dt il [] ss (dat, nd) = Inr (dat, nd + length ss)"
  by (induction ss arbitrary: nd) (simp_all add: bisect_left_empty)

lemma init_no_buckets:
  assumes "derive_buckets ss bs = []"
  shows "BucketSentenceIter_init ss bs il dt None dn ln
           = \<lparr>buckets_arg = None, printed = [length ss], returned = Inl ValueError\<rparr>"
  using assms by (simp add: BucketSentenceIter_init_def assign_loop_no_buckets py_max_def)

lemma derive_buckets_empty:
  assumes "\<forall>s \<in> set ss. int (count_list (map length ss) (length s)) < bs"
  shows "derive_buckets ss bs = []"
proof (cases "ss = []")
  case True
  then show ?thesis by (simp add: derive_buckets_eq)
next
  case False
  then obtain s where s: "s \<in> set ss" by (cases ss) auto
  then have "length s \<in> set (map length ss)" by simp
  then have "count_list (map length ss) (length s) \<noteq> 0" by (simp only: count_list_0_iff not_not)
  then have "0 < count_list (map length ss) (length s)" by simp
  with assms s have pos: "0 < bs" by fastforce
  have "\<not> bs \<le> int (count_list (map length ss) l)" for l
  proof (cases "l \<in> set (map length ss)")
    case True
    then show ?thesis using assms by auto
  next
    case False
    then have "count_list (map length ss) l = 0" by (simp add: count_list_0_iff)
    then show ?thesis using pos by simp
  qed
  then show ?thesis by (simp add: derive_buckets_eq del: upt_Suc)
qed

text \<open>
  C1, as amended: when no bucket set is supplied and no sentence length is shared by at
  least \<open>batch_size\<close> sentences, the derived bucket set is empty, the warning reports
  every sentence as discarded, and construction then raises \<open>ValueError\<close> at
  \<open>max(buckets)\<close>: no iterator is produced.
\<close>

theorem no_bucket_qualifies_raises:
  assumes "\<forall>s \<in> set sentences. int (count_list (map length sentences) (length s)) < batch_size"
  shows "derive_buckets sentences batch_size = []
         \<and> returned (BucketSentenceIter_init sentences batch_size invalid_label dtype None
                       data_name label_name) = Inl ValueError
         \<and> printed (BucketSentenceIter_init sentences batch_size invalid_label dtype None
                       data_name label_name) = [length sentences]"
  using derive_buckets_empty[OF assms] by (simp add: init_no_buckets)

theorem no_bucket_qualifies_raises_witness:
  "int (count_list (map length [[1, 2::int]]) (length [1, 2::int])) < 2
   \<and> derive_buckets [[1, 2]] 2 = []
   \<and> returned (BucketSentenceIter_init [[1, 2]] 2 (- 1) (\<lambda>i. i) None ''data'' ''softmax_label'')
       = Inl ValueError
   \<and> printed (BucketSentenceIter_init [[1, 2]] 2 (- 1) (\<lambda>i. i) None ''data'' ''softmax_label'')
       = [1]"
  using no_bucket_qualifies_raises[of "[[1, 2]]" 2 "- 1" "\<lambda>i. i" "''data''" "''softmax_label''"]
  by simp

theorem empty_bucket_set_counterexample:
  "\<not> (\<exists>self. returned (BucketSentenceIter_init [[1, 2]] 2 (- 1) (\<lambda>i. i) None
                          ''data'' ''softmax_label'') = Inr self)"
proof -
  have "derive_buckets [[1, 2]] 2 = []" by (simp add: derive_buckets_eq)
  then show ?thesis by (simp add: init_no_buckets)
qed

text \<open>
  C6, as amended: the derived bucket set is strictly ascending, and its members are the
  numbers \<open>l\<close> (zero included) not above the longest sentence length for which at least
  \<open>batch_size\<close> sentences have length exactly \<open>l\<close>; an iterator constructed without a
  supplied bucket set has this bucket set.
\<close>

theorem derived_bucket_set:
  "sorted_wrt (<) (derive_buckets sentences batch_size)
   \<and> set (derive_buckets sentences batch_size)
       = {int l | l. (\<exists>s \<in> set sentences. l \<le> length s)
                     \<and> batch_size \<le> int (count_list (map length sentences) l)}
   \<and> (\<forall>self. returned (BucketSentenceIter_init sentences batch_size invalid_label dtype None
                         data_name label_name) = Inr self
         \<longrightarrow> self_buckets self = derive_buckets sentences batch_size)"
proof (intro conjI allI impI)
  show "sorted_wrt (<) (derive_buckets sentences batch_size)"
    by (rule derive_buckets_strict_sorted)
  show "set (derive_buckets sentences batch_size)
       = {int l | l. (\<exists>s \<in> set sentences. l \<le> length s)
                     \<and> batch_size \<le> int (count_list (map length sentences) l)}"
    by (rule derive_buckets_set)
  fix self
  assume "returned (BucketSentenceIter_init sentences batch_size invalid_label dtype None
                         data_name label_name) = Inr self"
  then show "self_buckets self = derive_buckets sentences batch_size"
    by (auto simp: BucketSentenceIter_init_def derive_buckets_sort Let_def
             split: sum.splits prod.splits)
qed

theorem derived_bucket_set_witness:
  "map_sum id self_buckets
     (returned (BucketSentenceIter_init [[0, 1], [2], [0, 2, 1, 0]] 1 (- 1) (\<lambda>i. i) None
                  ''data'' ''softmax_label''))
     = Inr (derive_buckets [[0, 1], [2], [0, 2, 1, 0]] 1)
   \<and> derive_buckets [[0, 1], [2], [0, 2, 1, 0]] 1 = [1, 2, 4]"
proof -
  let ?r = "returned (BucketSentenceIter_init [[0, 1], [2], [0, 2, 1, 0]] 1 (- 1) (\<lambda>i. i) None
                  ''data'' ''softmax_label'')"
  have "map_sum id self_curr_idx ?r = Inr 0" by code_simp
  then obtain self where s: "?r = Inr self" by (cases ?r) auto
  have "self_buckets self = derive_buckets [[0, 1], [2], [0, 2, 1, 0]] 1"
    using derived_bucket_set[of "[[0, 1], [2], [0, 2, 1, 0]]" 1 "- 1" "\<lambda>i. i" "''data''"
            "''softmax_label''"] s by blast
  moreover have "derive_buckets [[0, 1], [2], [0, 2, 1, 0]] 1 = [1, 2, 4]" by code_simp
  ultimately show ?thesis using s by simp
qed

theorem derived_bucket_set_counterexample:
  "map_sum id self_buckets
     (returned (BucketSentenceIter_init [[]] 1 (- 1) (\<lambda>i. i) None ''data'' ''softmax_label''))
     = Inr [0]
   \<and> derive_buckets [[]] 1 = [0]
   \<and> claimed_bucket_set [[]] 1 = []"
  by code_simp

text \<open>
  C10: a supplied non-empty bucket list is left sorted ascending in the caller's hands,
  and it is the iterator's bucket set; a supplied empty list gives the same outcome as
  no bucket set, and is itself left empty.
\<close>

theorem supplied_buckets_sorted_in_place:
  "(b \<noteq> [] \<longrightarrow>
      buckets_arg (BucketSentenceIter_init sentences batch_size invalid_label dtype (Some b)
                     data_name label_name) = Some (sort b)
      \<and> (\<forall>self. returned (BucketSentenceIter_init sentences batch_size invalid_label dtype (Some b)
                     data_name label_name) = Inr self \<longrightarrow> self_buckets self = sort b))
   \<and> BucketSentenceIter_init sentences batch_size invalid_label dtype (Some []) data_name label_name
       = (BucketSentenceIter_init sentences batch_size invalid_label dtype None data_name label_name)
           \<lparr>buckets_arg := Some []\<rparr>
   \<and> buckets_arg (BucketSentenceIter_init sentences batch_size invalid_label dtype None
                    data_name label_name) = None"
  by (auto simp: BucketSentenceIter_init_def Let_def split: sum.splits prod.splits)

theorem supplied_buckets_sorted_in_place_witness:
  "[4, 2] \<noteq> ([] :: int list)
   \<and> buckets_arg (BucketSentenceIter_init [[0, 1], [2], [0, 2, 1, 0]] 1 (- 1) (\<lambda>i. i)
                    (Some [4, 2]) ''data'' ''softmax_label'') = Some [2, 4]
   \<and> map_sum id self_buckets
       (returned (BucketSentenceIter_init [[0, 1], [2], [0, 2, 1, 0]] 1 (- 1) (\<lambda>i. i)
                    (Some [4, 2]) ''data'' ''softmax_label'')) = Inr [2, 4]"
proof -
  let ?c = "BucketSentenceIter_init [[0, 1], [2], [0, 2, 1, 0]] 1 (- 1) (\<lambda>i. i)
              (Some [4, 2]) ''data'' ''softmax_label''"
  have ne: "[4, 2] \<noteq> ([] :: int list)" by simp
  have "map_sum id self_curr_idx (returned ?c) = Inr 0" by code_simp
  then obtain self where s: "returned ?c = Inr self" by (cases "returned ?c") auto
  have srt: "sort [4, 2 :: int] = [2, 4]" by code_simp
  from supplied_buckets_sorted_in_place[of "[4, 2]" "[[0, 1], [2], [0, 2, 1, 0]]" 1 "- 1"
         "\<lambda>i. i" "''data''" "''softmax_label''"] ne s
  have "buckets_arg ?c = Some (sort [4, 2])" "self_buckets self = sort [4, 2]" by blast+
  then show ?thesis using s srt by simp
qed

section \<open>reset\<close>

lemma shuffle_loop_mset:
  "i < length x \<or> i = 0 \<Longrightarrow> mset (fst (shuffle_loop i x g)) = mset x"
proof (induction i arbitrary: x g)
  case 0
  then show ?case by simp
next
  case (Suc i)
  then have len: "Suc i < length x" by simp
  define j where "j = g 0 mod (Suc i + 1)"
  have "j < Suc i + 1" unfolding j_def by (rule mod_less_divisor) simp
  then have j: "j < length x" using len by simp
  define x' where "x' = x[Suc i := x ! j, j := x ! Suc i]"
  have "mset x' = mset x" unfolding x'_def by (rule mset_swap[OF j len])
  moreover have "i < length x' \<or> i = 0" using len by (simp add: x'_def)
  ultimately have "mset (fst (shuffle_loop i x' (\<lambda>n. g (Suc n)))) = mset x"
    using Suc.IH[of x' "\<lambda>n. g (Suc n)"] by simp
  then show ?case by (simp add: Let_def j_def x'_def)
qed

lemma shuffle_mset: "mset (fst (shuffle x g)) = mset x"
proof (cases x)
  case Nil
  then show ?thesis by (simp add: shuffle_def)
next
  case (Cons a as)
  then show ?thesis unfolding shuffle_def by (intro shuffle_loop_mset) simp
qed

lemma shuffle_buckets_mset: "map mset (fst (shuffle_buckets bs g)) = map mset bs"
proof (induction bs arbitrary: g)
  case Nil
  then show ?case by simp
next
  case (Cons b bs)
  have "fst (shuffle_buckets (b # bs) g)
          = fst (shuffle b g) # fst (shuffle_buckets bs (snd (shuffle b g)))"
    by (simp add: case_prod_unfold Let_def)
  then show ?case by (simp add: shuffle_mset Cons.IH)
qed

text \<open>
  C9: \<open>reset\<close> sets the cursor to 0, leaves the index table a permutation of its
  entries and every bucket array a permutation of its rows (same number of buckets, same
  rows, none added, removed or resized). The new index table is determined by Python's
  generator and the old table alone, the new row orders by NumPy's generator and the old
  arrays alone. Every other field of the iterator is as before.
\<close>

theorem reset_permutes:
  "self_curr_idx (BucketSentenceIter_reset py_random np_random self) = 0
   \<and> mset (self_idx (BucketSentenceIter_reset py_random np_random self)) = mset (self_idx self)
   \<and> map mset (self_data (BucketSentenceIter_reset py_random np_random self))
       = map mset (self_data self)
   \<and> self_idx (BucketSentenceIter_reset py_random np_random self)
       = self_idx (BucketSentenceIter_reset py_random np_random' (self\<lparr>self_data := d\<rparr>))
   \<and> self_data (BucketSentenceIter_reset py_random np_random self)
       = self_data (BucketSentenceIter_reset py_random' np_random (self\<lparr>self_idx := ix\<rparr>))
   \<and> BucketSentenceIter_reset py_random np_random self
       = self\<lparr>self_curr_idx := 0,
              self_idx := self_idx (BucketSentenceIter_reset py_random np_random self),
              self_data := self_data (BucketSentenceIter_reset py_random np_random self)\<rparr>
   \<and> self_buckets (BucketSentenceIter_reset py_random np_random self) = self_buckets self
   \<and> self_batch_size (BucketSentenceIter_reset py_random np_random self) = self_batch_size self
   \<and> self_provide_data (BucketSentenceIter_reset py_random np_random self)
       = self_provide_data self
   \<and> self_provide_label (BucketSentenceIter_reset py_random np_random self)
       = self_provide_label self
   \<and> self_default_bucket_key (BucketSentenceIter_reset py_random np_random self)
       = self_default_bucket_key self"
  by (simp add: BucketSentenceIter_reset_def shuffle_mset shuffle_buckets_mset)

section \<open>Construction: assigning sentences to buckets\<close>

lemma bisect_left_loop_spec:
  assumes "sorted a" "lo \<le> hi" "hi \<le> length a"
    "\<forall>i<lo. a ! i < x" "\<forall>i. hi \<le> i \<and> i < length a \<longrightarrow> x \<le> a ! i"
  shows "lo \<le> bisect_left_loop a x lo hi \<and> bisect_left_loop a x lo hi \<le> hi
         \<and> (\<forall>i<bisect_left_loop a x lo hi. a ! i < x)
         \<and> (\<forall>i. bisect_left_loop a x lo hi \<le> i \<and> i < length a \<longrightarrow> x \<le> a ! i)"
  using assms
proof (induction a x lo hi rule: bisect_left_loop.induct)
  case (1 a x lo hi)
  show ?case
  proof (cases "lo < hi")
    case False
    have "bisect_left_loop a x lo hi = lo"
      by (subst bisect_left_loop.simps) (simp add: False)
    moreover have "lo = hi" using False "1.prems"(2) by simp
    ultimately have "bisect_left_loop a x lo hi = lo" "lo = hi" by simp_all
    then show ?thesis using "1.prems" by simp
  next
    case True
    define mid where "mid = (lo + hi) div 2"
    have mid: "lo \<le> mid" "mid < hi" using True by (auto simp: mid_def)
    show ?thesis
    proof (cases "a ! mid < x")
      case lt: True
      have eq: "bisect_left_loop a x lo hi = bisect_left_loop a x (mid + 1) hi"
        using True lt by (simp add: bisect_left_loop.simps[of a x lo hi] mid_def Let_def)
      have below: "\<forall>i<mid + 1. a ! i < x"
      proof (intro allI impI)
        fix i assume "i < mid + 1"
        then have "a ! i \<le> a ! mid"
          using "1.prems"(1,3) mid by (intro sorted_nth_mono) auto
        then show "a ! i < x" using lt by simp
      qed
      have "mid + 1 \<le> bisect_left_loop a x (mid + 1) hi
            \<and> bisect_left_loop a x (mid + 1) hi \<le> hi
            \<and> (\<forall>i<bisect_left_loop a x (mid + 1) hi. a ! i < x)
            \<and> (\<forall>i. bisect_left_loop a x (mid + 1) hi \<le> i \<and> i < length a \<longrightarrow> x \<le> a ! i)"
        using "1.IH"(1)[OF True mid_def lt "1.prems"(1) _ "1.prems"(3) below "1.prems"(5)] mid
        by simp
      then show ?thesis using eq mid by auto
    next
      case ge: False
      have eq: "bisect_left_loop a x lo hi = bisect_left_loop a x lo mid"
        using True ge by (simp add: bisect_left_loop.simps[of a x lo hi] mid_def Let_def)
      have above: "\<forall>i. mid \<le> i \<and> i < length a \<longrightarrow> x \<le> a ! i"
      proof (intro allI impI)
        fix i assume "mid \<le> i \<and> i < length a"
        then have "a ! mid \<le> a ! i"
          using "1.prems"(1) by (intro sorted_nth_mono) auto
        then show "x \<le> a ! i" using ge by simp
      qed
      have "lo \<le> bisect_left_loop a x lo mid
            \<and> bisect_left_loop a x lo mid \<le> mid
            \<and> (\<forall>i<bisect_left_loop a x lo mid. a ! i < x)
            \<and> (\<forall>i. bisect_left_loop a x lo mid \<le> i \<and> i < length a \<longrightarrow> x \<le> a ! i)"
        using "1.IH"(2)[OF True mid_def ge "1.prems"(1) mid(1) _ "1.prems"(4) above]
          mid "1.prems"(3) by simp
      then show ?thesis using eq mid by auto
    qed
  qed
qed

lemma bisect_left_spec:
  assumes "sorted a"
  shows "bisect_left a x \<le> length a" "\<forall>i<bisect_left a x. a ! i < x"
    "\<forall>i. bisect_left a x \<le> i \<and> i < length a \<longrightarrow> x \<le> a ! i"
  using bisect_left_loop_spec[OF assms, of 0 "length a" x] by (simp_all add: bisect_left_def)

lemma bisect_left_eq_iff:
  assumes "sorted a" "k \<le> length a"
  shows "bisect_left a x = k \<longleftrightarrow> (\<forall>j<k. a ! j < x) \<and> (k < length a \<longrightarrow> x \<le> a ! k)"
proof
  assume "bisect_left a x = k"
  then show "(\<forall>j<k. a ! j < x) \<and> (k < length a \<longrightarrow> x \<le> a ! k)"
    using bisect_left_spec(2,3)[OF assms(1), of x] by auto
next
  assume r: "(\<forall>j<k. a ! j < x) \<and> (k < length a \<longrightarrow> x \<le> a ! k)"
  show "bisect_left a x = k"
  proof (rule ccontr)
    assume "bisect_left a x \<noteq> k"
    then consider "bisect_left a x < k" | "k < bisect_left a x" by linarith
    then show False
    proof cases
      case 1
      then have "a ! bisect_left a x < x" using r by simp
      moreover have "x \<le> a ! bisect_left a x"
        using bisect_left_spec(3)[OF assms(1), of x] 1 assms(2) by simp
      ultimately show False by simp
    next
      case 2
      then have "a ! k < x" using bisect_left_spec(2)[OF assms(1), of x] by simp
      moreover have "k < length a" using 2 bisect_left_spec(1)[OF assms(1), of x] by simp
      ultimately show False using r by auto
    qed
  qed
qed

lemma bisect_left_overlength:
  assumes "sorted a" "a \<noteq> []"
  shows "bisect_left a x = length a \<longleftrightarrow> Max (set a) < x"
proof -
  have "bisect_left a x = length a \<longleftrightarrow> (\<forall>j<length a. a ! j < x)"
    using bisect_left_eq_iff[OF assms(1), of "length a" x] by simp
  also have "\<dots> \<longleftrightarrow> (\<forall>b \<in> set a. b < x)" by (simp add: all_set_conv_all_nth)
  also have "\<dots> \<longleftrightarrow> Max (set a) < x" using assms(2) by simp
  finally show ?thesis .
qed

lemma pad_row_ok:
  "int (length s) \<le> w \<Longrightarrow>
     pad_row dt il w s = Inr (map dt s @ replicate (nat w - length s) (dt il))"
  by (simp add: pad_row_def)

lemma assign_loop_sorted:
  assumes "sorted bks" "length dat = length bks"
  shows "assign_loop dt il bks ss (dat, nd) =
     Inr (map (\<lambda>k. dat ! k @ map (\<lambda>s. map dt s @ replicate (nat (bks ! k) - length s) (dt il))
                             (filter (\<lambda>s. bisect_left bks (int (length s)) = k) ss))
            [0..<length bks],
          nd + length (filter (\<lambda>s. bisect_left bks (int (length s)) = length bks) ss))"
  using assms(2)
proof (induction ss arbitrary: dat nd)
  case Nil
  then show ?case by (simp add: Nil[symmetric] map_nth)
next
  case (Cons s ss)
  let ?row = "\<lambda>k s. map dt s @ replicate (nat (bks ! k) - length s) (dt il)"
  let ?in = "\<lambda>k s. bisect_left bks (int (length s)) = k"
  define buck where "buck = bisect_left bks (int (length s))"
  show ?case
  proof (cases "buck = length bks")
    case True
    have step: "assign_loop dt il bks (s # ss) (dat, nd) = assign_loop dt il bks ss (dat, nd + 1)"
      using True by (simp add: buck_def Let_def)
    have rows: "map (\<lambda>k. dat ! k @ map (?row k) (filter (?in k) (s # ss))) [0..<length bks]
        = map (\<lambda>k. dat ! k @ map (?row k) (filter (?in k) ss)) [0..<length bks]"
    proof (rule map_cong[OF refl])
      fix k assume "k \<in> set [0..<length bks]"
      then have "\<not> ?in k s" using True by (simp add: buck_def)
      then show "dat ! k @ map (?row k) (filter (?in k) (s # ss))
          = dat ! k @ map (?row k) (filter (?in k) ss)" by simp
    qed
    have cnt: "length (filter (?in (length bks)) (s # ss))
        = Suc (length (filter (?in (length bks)) ss))"
      using True by (simp add: buck_def)
    show ?thesis unfolding step Cons.IH[OF Cons.prems] rows cnt by simp
  next
    case False
    then have lt: "buck < length bks"
      using bisect_left_spec(1)[OF assms(1), of "int (length s)"] by (simp add: buck_def)
    then have "int (length s) \<le> bks ! buck"
      using bisect_left_spec(3)[OF assms(1), of "int (length s)"] by (simp add: buck_def)
    then have pad: "pad_row dt il (bks ! buck) s = Inr (?row buck s)" by (rule pad_row_ok)
    define dat' where "dat' = dat[buck := dat ! buck @ [?row buck s]]"
    have len': "length dat' = length bks" using Cons.prems by (simp add: dat'_def)
    have step: "assign_loop dt il bks (s # ss) (dat, nd) = assign_loop dt il bks ss (dat', nd)"
      using False pad unfolding buck_def dat'_def by (simp add: Let_def)
    have rows: "map (\<lambda>k. dat' ! k @ map (?row k) (filter (?in k) ss)) [0..<length bks]
        = map (\<lambda>k. dat ! k @ map (?row k) (filter (?in k) (s # ss))) [0..<length bks]"
    proof (rule map_cong[OF refl])
      fix k assume "k \<in> set [0..<length bks]"
      then have k: "k < length dat" using Cons.prems by simp
      show "dat' ! k @ map (?row k) (filter (?in k) ss)
          = dat ! k @ map (?row k) (filter (?in k) (s # ss))"
      proof (cases "k = buck")
        case True
        then have "?in k s" by (simp add: buck_def)
        then show ?thesis using k True by (simp add: dat'_def)
      next
        case False
        then have "\<not> ?in k s" by (auto simp: buck_def)
        then show ?thesis using k False by (simp add: dat'_def)
      qed
    qed
    have cnt: "length (filter (?in (length bks)) (s # ss)) = length (filter (?in (length bks)) ss)"
      using False by (simp add: buck_def)
    show ?thesis unfolding step Cons.IH[OF len'] rows cnt by simp
  qed
qed

lemma assign_loop_initial:
  assumes "sorted bks"
  shows "assign_loop dt il bks ss (map (\<lambda>_. []) bks, 0) =
     Inr (map (\<lambda>k. map (\<lambda>s. map dt s @ replicate (nat (bks ! k) - length s) (dt il))
                    (filter (\<lambda>s. bisect_left bks (int (length s)) = k) ss))
            [0..<length bks],
          length (filter (\<lambda>s. bisect_left bks (int (length s)) = length bks) ss))"
  by (subst assign_loop_sorted[OF assms]) simp_all

section \<open>Construction: the constructed iterator\<close>

lemma py_range_pos:
  assumes "0 < bs"
  shows "py_range 0 (int n - bs + 1) bs = Inr (map (\<lambda>q. int q * bs) [0..<n div nat bs])"
proof -
  have "nat ((int n - bs + 1 - 0 + bs - 1) div bs) = n div nat bs"
    using assms by (simp add: nat_div_distrib)
  then show ?thesis using assms by (simp add: py_range_def)
qed

lemma py_range_neg:
  assumes "bs < 0"
  shows "py_range 0 (int n - bs + 1) bs = Inr []"
proof -
  have pos: "0 < - bs" using assms by simp
  have "((0 - (int n - bs + 1) - bs - 1) div (- bs) < 0) = (0 - (int n - bs + 1) - bs - 1 < 0)"
    by (rule pos_imp_zdiv_neg_iff[OF pos])
  moreover have "0 - (int n - bs + 1) - bs - 1 < 0" by simp
  ultimately have "(0 - (int n - bs + 1) - bs - 1) div (- bs) < 0" by blast
  then show ?thesis using assms by (simp add: py_range_def)
qed

lemma index_loop_pos:
  assumes "0 < bs"
  shows "index_loop bs (enumerate n dat) acc =
     Inr (acc @ concat (map (\<lambda>(i, buck). map (\<lambda>q. (i, int q * bs)) [0..<length buck div nat bs])
                         (enumerate n dat)))"
  by (induction dat arbitrary: n acc) (simp_all add: py_range_pos[OF assms] comp_def)

lemma index_loop_neg:
  assumes "bs < 0"
  shows "index_loop bs (enumerate n dat) acc = Inr acc"
  by (induction dat arbitrary: n acc) (simp_all add: py_range_neg[OF assms])

lemma index_loop_zero:
  "dat \<noteq> [] \<Longrightarrow> index_loop 0 (enumerate n dat) acc = Inl ValueError"
  by (cases dat) (simp_all add: py_range_def)

lemma py_max_Inr:
  assumes "py_max xs = Inr m"
  shows "xs \<noteq> [] \<and> m = Max (set xs)"
proof (cases xs)
  case Nil
  then show ?thesis using assms by (simp add: py_max_def)
next
  case (Cons y ys)
  have "Max (set (y # ys)) = fold max ys y" by (rule Max.set_eq_fold)
  moreover have "m = fold max ys y" using assms Cons by (simp add: py_max_def)
  ultimately show ?thesis using Cons by simp
qed

lemma init_unfold:
  "BucketSentenceIter_init ss bs il dt bk dn ln =
     (let B = chosen_buckets ss bs bk;
          arg = (case bk of None \<Rightarrow> None | Some b \<Rightarrow> if b = [] then Some b else Some B);
          D = map (\<lambda>k. map (\<lambda>s. map dt s @ replicate (nat (B ! k) - length s) (dt il))
                         (filter (\<lambda>s. bisect_left B (int (length s)) = k) ss)) [0..<length B];
          nd = length (filter (\<lambda>s. bisect_left B (int (length s)) = length B) ss)
      in case py_max B of
           Inl e \<Rightarrow> \<lparr>buckets_arg = arg, printed = [nd], returned = Inl e\<rparr>
         | Inr key \<Rightarrow>
             (case index_loop bs (enumerate 0 D) [] of
                Inl e \<Rightarrow> \<lparr>buckets_arg = arg, printed = [nd], returned = Inl e\<rparr>
              | Inr ix \<Rightarrow>
                  \<lparr>buckets_arg = arg, printed = [nd],
                   returned = Inr
                     \<lparr>self_data = D, self_default_bucket_key = key,
                      self_provide_data = [(dn, (bs, key))],
                      self_provide_label = [(ln, (bs, key))],
                      self_batch_size = bs, self_buckets = B,
                      self_data_name = dn, self_label_name = ln,
                      self_dtype = dt, self_invalid_label = il,
                      self_idx = ix, self_curr_idx = 0\<rparr>\<rparr>))"
proof -
  have "sorted (chosen_buckets ss bs bk)" by (simp add: chosen_buckets_def)
  note al = assign_loop_initial[OF this, of dt il ss]
  show ?thesis
    unfolding BucketSentenceIter_init_def Let_def chosen_buckets_def[symmetric] al
    by simp
qed

lemma init_Inr:
  assumes "returned (BucketSentenceIter_init ss bs il dt bk dn ln) = Inr self"
  defines "B \<equiv> chosen_buckets ss bs bk"
  shows "self_buckets self = B" "B \<noteq> []" "sorted B"
    "self_data self = map (\<lambda>k. map (\<lambda>s. map dt s @ replicate (nat (B ! k) - length s) (dt il))
                         (filter (\<lambda>s. bisect_left B (int (length s)) = k) ss)) [0..<length B]"
    "printed (BucketSentenceIter_init ss bs il dt bk dn ln)
       = [length (filter (\<lambda>s. bisect_left B (int (length s)) = length B) ss)]"
    "index_loop bs (enumerate 0 (self_data self)) [] = Inr (self_idx self)"
    "self_curr_idx self = 0" "self_batch_size self = bs" "self_dtype self = dt"
    "self_invalid_label self = il" "self_default_bucket_key self = Max (set B)"
    "bs \<noteq> 0"
proof -
  let ?D = "map (\<lambda>k. map (\<lambda>s. map dt s @ replicate (nat (B ! k) - length s) (dt il))
                         (filter (\<lambda>s. bisect_left B (int (length s)) = k) ss)) [0..<length B]"
  from assms(1) obtain key where key: "py_max B = Inr key"
    unfolding init_unfold Let_def B_def by (cases "py_max (chosen_buckets ss bs bk)") auto
  from assms(1) key obtain ix where ix: "index_loop bs (enumerate 0 ?D) [] = Inr ix"
    unfolding init_unfold Let_def B_def[symmetric]
    by (cases "index_loop bs (enumerate 0 ?D) []") auto
  have self: "self = \<lparr>self_data = ?D, self_default_bucket_key = key,
                      self_provide_data = [(dn, (bs, key))],
                      self_provide_label = [(ln, (bs, key))],
                      self_batch_size = bs, self_buckets = B,
                      self_data_name = dn, self_label_name = ln,
                      self_dtype = dt, self_invalid_label = il,
                      self_idx = ix, self_curr_idx = 0\<rparr>"
    using assms(1) key ix unfolding init_unfold Let_def B_def[symmetric] by simp
  show "sorted B" by (simp add: B_def chosen_buckets_def)
  show ne: "B \<noteq> []" using py_max_Inr[OF key] by simp
  show "self_buckets self = B" "self_data self = ?D" "self_curr_idx self = 0"
    "self_batch_size self = bs" "self_dtype self = dt" "self_invalid_label self = il"
    by (simp_all add: self)
  show "self_default_bucket_key self = Max (set B)" using py_max_Inr[OF key] by (simp add: self)
  show "index_loop bs (enumerate 0 (self_data self)) [] = Inr (self_idx self)"
    using ix by (simp add: self)
  show "printed (BucketSentenceIter_init ss bs il dt bk dn ln)
       = [length (filter (\<lambda>s. bisect_left B (int (length s)) = length B) ss)]"
    using key ix unfolding init_unfold Let_def B_def[symmetric] by simp
  show "bs \<noteq> 0"
  proof
    assume "bs = 0"
    moreover have "?D \<noteq> []" using ne by simp
    ultimately show False using ix index_loop_zero[of ?D 0 "[]"] by simp
  qed
qed

lemma first_fit_unique:
  fixes B :: "int list"
  assumes "sorted B" "x \<le> Max (set B)" "B \<noteq> []"
  shows "\<exists>!k. k < length B \<and> x \<le> B ! k \<and> (\<forall>j<k. B ! j < x)"
proof -
  define r where "r = bisect_left B x"
  have "r \<noteq> length B" using bisect_left_overlength[OF assms(1,3), of x] assms(2) by (simp add: r_def)
  then have r: "r < length B" using bisect_left_spec(1)[OF assms(1), of x] by (simp add: r_def)
  then have fit: "x \<le> B ! r \<and> (\<forall>j<r. B ! j < x)"
    using bisect_left_eq_iff[OF assms(1), of r x] by (simp add: r_def)
  show ?thesis
  proof (rule ex1I[of _ r])
    show "r < length B \<and> x \<le> B ! r \<and> (\<forall>j<r. B ! j < x)" using r fit by simp
  next
    fix k assume "k < length B \<and> x \<le> B ! k \<and> (\<forall>j<k. B ! j < x)"
    then have "bisect_left B x = k" using bisect_left_eq_iff[OF assms(1), of k x] by simp
    then show "k = r" by (simp add: r_def)
  qed
qed

lemma first_fit_least_width:
  assumes "sorted B" "k < length B" "x \<le> B ! k" "\<forall>j<k. B ! j < x" "b \<in> set B" "x \<le> b"
  shows "B ! k \<le> b"
proof -
  from assms(5) obtain m where m: "m < length B" "B ! m = b" by (auto simp: in_set_conv_nth)
  have "\<not> m < k" using assms(4,6) m(2) by auto
  then have "k \<le> m" by simp
  then show ?thesis using sorted_nth_mono[OF assms(1) _ m(1)] m(2) by auto
qed

text \<open>
  C3: after a successful construction the bucket set is sorted and non-empty, and there
  is one bucket array per bucket. Bucket \<open>k\<close> holds, in input order, exactly the sentences
  whose length is at most its width and above the width of every earlier bucket, each
  stored in the array's element type and right-padded with the invalid label to the
  bucket's width. A sentence no longer than the largest bucket has exactly one such
  bucket, and its width is the least width that fits; a longer sentence fits no bucket,
  and the warning prints the number of those sentences.
\<close>

theorem sentences_bucketed:
  assumes "returned (BucketSentenceIter_init sentences batch_size invalid_label dtype buckets
                       data_name label_name) = Inr self"
  shows "sorted (self_buckets self) \<and> self_buckets self \<noteq> []
    \<and> length (self_data self) = length (self_buckets self)
    \<and> (\<forall>k < length (self_buckets self).
          self_data self ! k
            = map (\<lambda>s. map dtype s
                        @ replicate (nat (self_buckets self ! k) - length s) (dtype invalid_label))
                (filter (\<lambda>s. int (length s) \<le> self_buckets self ! k
                              \<and> (\<forall>j<k. self_buckets self ! j < int (length s)))
                   sentences))
    \<and> (\<forall>s \<in> set sentences. int (length s) \<le> Max (set (self_buckets self)) \<longrightarrow>
          (\<exists>!k. k < length (self_buckets self) \<and> int (length s) \<le> self_buckets self ! k
                 \<and> (\<forall>j<k. self_buckets self ! j < int (length s))))
    \<and> (\<forall>k < length (self_buckets self). \<forall>x.
          x \<le> self_buckets self ! k \<and> (\<forall>j<k. self_buckets self ! j < x) \<longrightarrow>
          (\<forall>b \<in> set (self_buckets self). x \<le> b \<longrightarrow> self_buckets self ! k \<le> b))
    \<and> (\<forall>s \<in> set sentences. Max (set (self_buckets self)) < int (length s) \<longrightarrow>
          \<not> (\<exists>k < length (self_buckets self). int (length s) \<le> self_buckets self ! k))
    \<and> printed (BucketSentenceIter_init sentences batch_size invalid_label dtype buckets
                  data_name label_name)
        = [length (filter (\<lambda>s. Max (set (self_buckets self)) < int (length s)) sentences)]"
proof -
  define B where "B = chosen_buckets sentences batch_size buckets"
  note i = init_Inr[OF assms, folded B_def]
  have B: "self_buckets self = B" "B \<noteq> []" "sorted B" using i(1,2,3) .
  have len: "length (self_data self) = length B" by (simp add: i(4))
  have rows: "self_data self ! k
            = map (\<lambda>s. map dtype s @ replicate (nat (B ! k) - length s) (dtype invalid_label))
                (filter (\<lambda>s. int (length s) \<le> B ! k \<and> (\<forall>j<k. B ! j < int (length s)))
                   sentences)" if k: "k < length B" for k
  proof -
    have "filter (\<lambda>s. bisect_left B (int (length s)) = k) sentences
        = filter (\<lambda>s. int (length s) \<le> B ! k \<and> (\<forall>j<k. B ! j < int (length s))) sentences"
      using bisect_left_eq_iff[OF B(3), of k] k by (intro filter_cong) auto
    then show ?thesis using k by (simp add: i(4))
  qed
  have over: "printed (BucketSentenceIter_init sentences batch_size invalid_label dtype buckets
                  data_name label_name)
        = [length (filter (\<lambda>s. Max (set B) < int (length s)) sentences)]"
    unfolding i(5) using bisect_left_overlength[OF B(3,2)] by simp
  have none: "\<not> (\<exists>k < length B. x \<le> B ! k)" if "Max (set B) < x" for x
  proof
    assume "\<exists>k < length B. x \<le> B ! k"
    then obtain k where k: "k < length B" "x \<le> B ! k" by blast
    have "B ! k \<le> Max (set B)" using k(1) by (intro Max_ge) auto
    then have "x \<le> Max (set B)" using k(2) by simp
    then show False using that by simp
  qed
  show ?thesis
    unfolding B(1)
    using B(2,3) len rows over none first_fit_unique[OF B(3) _ B(2)]
      first_fit_least_width[OF B(3)]
    by (intro conjI allI impI ballI) blast+
qed

theorem sentences_bucketed_witness:
  "map_sum id (\<lambda>self. (self_buckets self, self_data self))
     (returned (BucketSentenceIter_init [[7, 8, 9], [5], [1, 2, 3, 4, 5], [6, 6]] 1 (- 1) (\<lambda>i. i)
                  (Some [4, 2]) ''data'' ''softmax_label''))
     = Inr ([2, 4], [[[5, - 1], [6, 6]], [[7, 8, 9, - 1]]])
   \<and> printed (BucketSentenceIter_init [[7, 8, 9], [5], [1, 2, 3, 4, 5], [6, 6]] 1 (- 1) (\<lambda>i. i)
                (Some [4, 2]) ''data'' ''softmax_label'') = [1]"
proof -
  let ?c = "BucketSentenceIter_init [[7, 8, 9], [5], [1, 2, 3, 4, 5], [6, 6]] 1 (- 1) (\<lambda>i. i)
              (Some [4, 2]) ''data'' ''softmax_label''"
  have ev: "map_sum id self_buckets (returned ?c) = Inr [2, 4]" by code_simp
  then obtain self where s: "returned ?c = Inr self" by (cases "returned ?c") auto
  then have b: "self_buckets self = [2, 4]" using ev by simp
  note t = sentences_bucketed[OF s]
  have "self_data self ! 0 = [[5, - 1], [6, 6]]" "self_data self ! 1 = [[7, 8, 9, - 1]]"
    "length (self_data self) = 2" "printed ?c = [1]"
    using t unfolding b by (simp_all add: All_less_Suc numeral_2_eq_2)
  moreover from this(3) have "self_data self = [self_data self ! 0, self_data self ! 1]"
    by (cases "self_data self"; cases "tl (self_data self)") auto
  ultimately show ?thesis using s b by simp
qed

section \<open>Reachable iterators, next and epochs\<close>

lemma init_rows_width:
  assumes "returned (BucketSentenceIter_init ss bs il dt bk dn ln) = Inr self"
    "k < length (self_data self)" "r \<in> set (self_data self ! k)"
  shows "int (length r) = self_buckets self ! k"
proof -
  define B where "B = chosen_buckets ss bs bk"
  note i = init_Inr[OF assms(1), folded B_def]
  have k: "k < length B" using assms(2) by (simp add: i(4))
  from assms(3) obtain s where s: "bisect_left B (int (length s)) = k"
    "r = map dt s @ replicate (nat (B ! k) - length s) (dt il)"
    using k by (auto simp: i(4))
  have "int (length s) \<le> B ! k" using bisect_left_eq_iff[OF i(3), of k "int (length s)"] s(1) k by simp
  then show ?thesis unfolding i(1) s(2) by simp
qed

lemma init_idx_pos:
  assumes "returned (BucketSentenceIter_init ss bs il dt bk dn ln) = Inr self" "0 < bs"
  shows "self_idx self
     = concat (map (\<lambda>(i, buck). map (\<lambda>q. (i, int q * bs)) [0..<length buck div nat bs])
                 (enumerate 0 (self_data self)))"
  using init_Inr(6)[OF assms(1)] index_loop_pos[OF assms(2), of 0 "self_data self" "[]"] by simp

lemma init_idx_neg:
  assumes "returned (BucketSentenceIter_init ss bs il dt bk dn ln) = Inr self" "bs < 0"
  shows "self_idx self = []"
  using init_Inr(6)[OF assms(1)] index_loop_neg[OF assms(2), of 0 "self_data self" "[]"] by simp

lemma offset_fits:
  assumes "0 < bs" "q < n div nat bs"
  shows "int q * bs + bs \<le> int n"
proof -
  have "Suc q \<le> n div nat bs" using assms(2) by simp
  then have "Suc q * nat bs \<le> n" using assms(1) by (simp add: less_eq_div_iff_mult_less_eq)
  then have "int (Suc q * nat bs) \<le> int n" by (rule iffD2[OF of_nat_le_iff])
  then show ?thesis using assms(1) by (simp add: algebra_simps)
qed

lemma sum_list_enumerate:
  "sum_list (map (\<lambda>(i, buck). f buck) (enumerate n xs)) = sum_list (map f xs)"
  by (induction xs arbitrary: n) simp_all

lemma iter_inv_init:
  assumes "returned (BucketSentenceIter_init ss bs il dt bk dn ln) = Inr self"
  shows "iter_inv self"
proof -
  define B where "B = chosen_buckets ss bs bk"
  note i = init_Inr[OF assms(1), folded B_def]
  have 1: "length (self_data self) = length (self_buckets self)" by (simp add: i(1,4))
  have 2: "self_curr_idx self \<le> length (self_idx self)" by (simp add: i(7))
  have 3: "\<forall>k<length (self_data self). \<forall>r \<in> set (self_data self ! k).
            int (length r) = self_buckets self ! k"
    using init_rows_width[OF assms] by blast
  have 4: "\<forall>(i, j) \<in> set (self_idx self).
            0 < self_batch_size self \<and> i < length (self_data self) \<and> 0 \<le> j
            \<and> j + self_batch_size self \<le> int (length (self_data self ! i))"
  proof (cases "0 < bs")
    case True
    show ?thesis
    proof (clarify)
      fix a j assume "(a, j) \<in> set (self_idx self)"
      then obtain buck q where m: "(a, buck) \<in> set (enumerate 0 (self_data self))"
        "q < length buck div nat bs" "j = int q * bs"
        unfolding init_idx_pos[OF assms True] by auto
      from m(1) have a: "a < length (self_data self)" "buck = self_data self ! a"
        by (auto simp: in_set_enumerate_eq)
      show "0 < self_batch_size self \<and> a < length (self_data self) \<and> 0 \<le> j
            \<and> j + self_batch_size self \<le> int (length (self_data self ! a))"
        using True a m(3) offset_fits[OF True m(2)] by (simp add: i(8))
    qed
  next
    case False
    then have "bs < 0" using i(12) by simp
    then show ?thesis by (simp add: init_idx_neg[OF assms])
  qed
  have 5: "0 < self_batch_size self \<longrightarrow>
            length (self_idx self)
              = sum_list (map (\<lambda>B. length B div nat (self_batch_size self)) (self_data self))"
  proof
    assume "0 < self_batch_size self"
    then have pos: "0 < bs" by (simp add: i(8))
    have "length (self_idx self)
        = sum_list (map (\<lambda>(i, buck). length buck div nat bs) (enumerate 0 (self_data self)))"
      unfolding init_idx_pos[OF assms pos]
      by (simp add: length_concat comp_def case_prod_unfold)
    then show "length (self_idx self)
              = sum_list (map (\<lambda>B. length B div nat (self_batch_size self)) (self_data self))"
      by (simp add: sum_list_enumerate i(8))
  qed
  show ?thesis unfolding iter_inv_def using 1 2 3 4 5 by blast
qed

lemma map_mset_nth:
  assumes "map mset xs = map mset ys" "k < length xs"
  shows "length xs = length ys" "set (xs ! k) = set (ys ! k)" "length (xs ! k) = length (ys ! k)"
proof -
  show len: "length xs = length ys" using assms(1) by (rule map_eq_imp_length_eq)
  have "map mset xs ! k = map mset ys ! k" using assms(1) by simp
  then have m: "mset (xs ! k) = mset (ys ! k)" using assms(2) len by simp
  show "set (xs ! k) = set (ys ! k)" using m by (rule mset_eq_setD)
  show "length (xs ! k) = length (ys ! k)" using m by (rule mset_eq_length)
qed

lemma map_mset_sum:
  assumes "map mset xs = map mset ys"
  shows "sum_list (map (\<lambda>B. length B div n) xs) = sum_list (map (\<lambda>B. length B div n) ys)"
proof -
  have "map (\<lambda>B. length B div n) zs = map (\<lambda>m. size m div n) (map mset zs)" for zs :: "'b list list"
    by simp
  then show ?thesis using assms by metis
qed

lemma iter_inv_reset:
  assumes "iter_inv self"
  shows "iter_inv (BucketSentenceIter_reset gp gn self)"
proof -
  define self' where "self' = BucketSentenceIter_reset gp gn self"
  have ix: "mset (self_idx self') = mset (self_idx self)"
    and d: "map mset (self_data self') = map mset (self_data self)"
    and rest: "self_curr_idx self' = 0" "self_buckets self' = self_buckets self"
      "self_batch_size self' = self_batch_size self"
    by (simp_all add: self'_def BucketSentenceIter_reset_def shuffle_mset shuffle_buckets_mset)
  have six: "set (self_idx self') = set (self_idx self)" using ix by (rule mset_eq_setD)
  have lix: "length (self_idx self') = length (self_idx self)" using ix by (rule mset_eq_length)
  have ld: "length (self_data self') = length (self_data self)" using d by (rule map_eq_imp_length_eq)
  have sd: "set (self_data self' ! k) = set (self_data self ! k)"
    and lk: "length (self_data self' ! k) = length (self_data self ! k)"
    if "k < length (self_data self)" for k
    using map_mset_nth(2,3)[OF d, of k] that ld by simp_all
  note inv = assms[unfolded iter_inv_def]
  have "iter_inv self'"
    unfolding iter_inv_def rest six lix ld map_mset_sum[OF d]
  proof (intro conjI)
    show "length (self_data self) = length (self_buckets self)" using inv by blast
    show "0 \<le> length (self_idx self)" by simp
    show "\<forall>k<length (self_data self). \<forall>r\<in>set (self_data self' ! k).
            int (length r) = self_buckets self ! k"
      using inv sd by simp
    show "\<forall>(i, j)\<in>set (self_idx self). 0 < self_batch_size self \<and> i < length (self_data self)
            \<and> 0 \<le> j \<and> j + self_batch_size self \<le> int (length (self_data self' ! i))"
      using inv lk by fastforce
    show "0 < self_batch_size self \<longrightarrow> length (self_idx self)
            = (\<Sum>B\<leftarrow>self_data self. length B div nat (self_batch_size self))"
      using inv by blast
  qed
  then show ?thesis by (simp add: self'_def)
qed

lemma next_state:
  "snd (BucketSentenceIter_next self)
     = (if self_curr_idx self < length (self_idx self)
        then self\<lparr>self_curr_idx := self_curr_idx self + 1\<rparr> else self)"
  by (auto simp: BucketSentenceIter_next_def py_nth_def Let_def split: sum.splits prod.splits)

lemma iter_inv_next:
  assumes "iter_inv self"
  shows "iter_inv (snd (BucketSentenceIter_next self))"
  using assms unfolding next_state iter_inv_def by auto

lemma reachable_inv: "reachable self \<Longrightarrow> iter_inv self"
  by (induction rule: reachable.induct) (auto intro: iter_inv_init iter_inv_reset iter_inv_next)

lemma next_at_end:
  "self_curr_idx self = length (self_idx self) \<Longrightarrow>
     BucketSentenceIter_next self = (Inl StopIteration, self)"
  by (simp add: BucketSentenceIter_next_def)

lemma next_before_end:
  assumes "self_curr_idx self < length (self_idx self)"
  shows "\<not> is_stop (fst (BucketSentenceIter_next self))"
  using assms
  by (auto simp: BucketSentenceIter_next_def py_nth_def shift_label_def is_stop_def Let_def
           split: sum.splits prod.splits if_splits error.splits)

lemma next_calls_stopped:
  "self_curr_idx self = length (self_idx self) \<Longrightarrow>
     map is_stop (next_calls m self) = replicate m True"
  by (induction m) (simp_all add: next_at_end is_stop_def)

lemma next_calls_unfold:
  "next_calls (Suc n) self
     = fst (BucketSentenceIter_next self) # next_calls n (snd (BucketSentenceIter_next self))"
  by (simp add: case_prod_unfold)

lemma next_calls_epoch:
  assumes "d = length (self_idx self) - self_curr_idx self"
    "self_curr_idx self \<le> length (self_idx self)"
  shows "map is_stop (next_calls (d + m) self) = replicate d False @ replicate m True"
  using assms
proof (induction d arbitrary: self)
  case 0
  then show ?case by (simp add: next_calls_stopped)
next
  case (Suc d)
  then have lt: "self_curr_idx self < length (self_idx self)" by simp
  define self' where "self' = snd (BucketSentenceIter_next self)"
  have s': "self' = self\<lparr>self_curr_idx := self_curr_idx self + 1\<rparr>"
    using lt by (simp add: self'_def next_state)
  have "map is_stop (next_calls (d + m) self') = replicate d False @ replicate m True"
    using Suc.prems lt by (intro Suc.IH) (simp_all add: s')
  then show ?case
    using next_before_end[OF lt] by (simp add: next_calls_unfold self'_def del: next_calls.simps)
qed

lemma next_emits:
  assumes "iter_inv self" "self_curr_idx self < length (self_idx self)"
    "0 \<notin> set (self_buckets self)"
  shows "is_batch (fst (BucketSentenceIter_next self))"
proof -
  note inv = assms(1)[unfolded iter_inv_def]
  obtain i j where ij: "self_idx self ! self_curr_idx self = (i, j)" by (cases "self_idx self ! self_curr_idx self")
  then have mem: "(i, j) \<in> set (self_idx self)" using assms(2) by (metis nth_mem)
  then have f: "0 < self_batch_size self" "i < length (self_data self)" "0 \<le> j"
    "j + self_batch_size self \<le> int (length (self_data self ! i))"
    using inv by auto
  define arr where "arr = self_data self ! i"
  have ne: "arr \<noteq> []" using f(1,3,4) by (auto simp: arr_def)
  then have "hd arr \<in> set arr" by simp
  then have w: "int (length (hd arr)) = self_buckets self ! i" using inv f(2) by (simp add: arr_def)
  have ib: "i < length (self_buckets self)" using inv f(2) by simp
  then have "self_buckets self ! i \<noteq> 0" using assms(3) by (metis nth_mem)
  then have "length (hd arr) \<noteq> 0" using w by auto
  then show ?thesis
    using assms(2) ij f(2) ne ib
    by (simp add: BucketSentenceIter_next_def py_nth_def shift_label_def is_batch_def Let_def
          arr_def)
qed

lemma next_calls_emit:
  assumes "d = length (self_idx self) - self_curr_idx self" "iter_inv self"
    "0 \<notin> set (self_buckets self)"
  shows "map is_batch (next_calls d self) = replicate d True"
  using assms
proof (induction d arbitrary: self)
  case 0
  then show ?case by simp
next
  case (Suc d)
  then have lt: "self_curr_idx self < length (self_idx self)" by simp
  define self' where "self' = snd (BucketSentenceIter_next self)"
  have s': "self' = self\<lparr>self_curr_idx := self_curr_idx self + 1\<rparr>"
    using lt by (simp add: self'_def next_state)
  have "iter_inv self'" unfolding self'_def using Suc.prems(2) by (rule iter_inv_next)
  then have "map is_batch (next_calls d self') = replicate d True"
    using Suc.prems lt by (intro Suc.IH) (simp_all add: s')
  then show ?case
    using next_emits[OF Suc.prems(2) lt Suc.prems(3)]
    by (simp add: next_calls_unfold self'_def del: next_calls.simps)
qed

lemma epoch_start_reachable: "epoch_start self \<Longrightarrow> reachable self"
  by (erule epoch_start.cases) (simp_all add: reachable.intros)

lemma epoch_start_cursor: "epoch_start self \<Longrightarrow> self_curr_idx self = 0"
  by (erule epoch_start.cases) (simp_all add: init_Inr(7) BucketSentenceIter_reset_def)

lemma offsets_set:
  assumes "0 < bs"
  shows "set (map (\<lambda>q. int q * bs) [0..<n div nat bs])
           = {j. bs dvd j \<and> 0 \<le> j \<and> j \<le> int n - bs}"
proof (intro set_eqI iffI)
  fix j assume "j \<in> set (map (\<lambda>q. int q * bs) [0..<n div nat bs])"
  then obtain q where q: "q < n div nat bs" "j = int q * bs" by auto
  then show "j \<in> {j. bs dvd j \<and> 0 \<le> j \<and> j \<le> int n - bs}"
    using offset_fits[OF assms q(1)] assms by simp
next
  fix j assume "j \<in> {j. bs dvd j \<and> 0 \<le> j \<and> j \<le> int n - bs}"
  then have j: "bs dvd j" "0 \<le> j" "j + bs \<le> int n" by auto
  define q where "q = nat (j div bs)"
  have jq: "j = int q * bs" using j(1,2) assms by (simp add: q_def pos_imp_zdiv_nonneg_iff)
  have "int (Suc q * nat bs) \<le> int n" using j(3) assms by (simp add: jq algebra_simps)
  then have "Suc q * nat bs \<le> n" by (rule iffD1[OF of_nat_le_iff])
  then have "Suc q \<le> n div nat bs" using assms by (simp add: less_eq_div_iff_mult_less_eq)
  then show "j \<in> set (map (\<lambda>q. int q * bs) [0..<n div nat bs])" using jq by auto
qed

text \<open>
  C4, as amended: for a positive batch size, the index table of a constructed iterator
  lists, bucket by bucket in bucket order, the offsets \<open>0, batch_size, 2 * batch_size, \<dots>\<close>
  in ascending order, which are exactly the multiples of \<open>batch_size\<close> from 0 up to the
  row count minus \<open>batch_size\<close>. From a construction or a \<open>reset\<close>, the calls of \<open>next\<close>
  that come before the stop condition number exactly the sum over the buckets of the row
  count divided (rounding down) by \<open>batch_size\<close>, and every later call signals the stop
  condition; when no bucket has width 0, each of the calls before the stop returns a
  batch.
\<close>

theorem index_table_and_epoch:
  "(returned (BucketSentenceIter_init sentences batch_size invalid_label dtype buckets
                data_name label_name) = Inr self \<and> 0 < batch_size \<longrightarrow>
      self_idx self
        = concat (map (\<lambda>(i, buck). map (\<lambda>q. (i, int q * batch_size))
                                       [0..<length buck div nat batch_size])
                    (enumerate 0 (self_data self)))
      \<and> (\<forall>buck. set (map (\<lambda>q. int q * batch_size) [0..<length buck div nat batch_size])
                   = {j. batch_size dvd j \<and> 0 \<le> j \<and> j \<le> int (length buck) - batch_size}))
   \<and> (epoch_start it \<and> 0 < self_batch_size it \<longrightarrow>
        map is_stop
          (next_calls
             (sum_list (map (\<lambda>buck. length buck div nat (self_batch_size it)) (self_data it)) + m)
             it)
          = replicate
              (sum_list (map (\<lambda>buck. length buck div nat (self_batch_size it)) (self_data it)))
              False
            @ replicate m True
        \<and> (0 \<notin> set (self_buckets it) \<longrightarrow>
             map is_batch
               (next_calls
                  (sum_list (map (\<lambda>buck. length buck div nat (self_batch_size it)) (self_data it)))
                  it)
               = replicate
                   (sum_list (map (\<lambda>buck. length buck div nat (self_batch_size it)) (self_data it)))
                   True))"
  (is "(?init \<and> ?pos \<longrightarrow> ?table \<and> ?offs) \<and> (?start \<and> ?bpos \<longrightarrow> ?epoch \<and> (?wide \<longrightarrow> ?emit))")
proof -
  let ?N = "\<lambda>it. sum_list (map (\<lambda>buck. length buck div nat (self_batch_size it)) (self_data it))"
  have table: "self_idx self
        = concat (map (\<lambda>(i, buck). map (\<lambda>q. (i, int q * batch_size))
                                       [0..<length buck div nat batch_size])
                    (enumerate 0 (self_data self)))"
    if "returned (BucketSentenceIter_init sentences batch_size invalid_label dtype buckets
                data_name label_name) = Inr self" "0 < batch_size"
    using init_idx_pos[OF that] .
  have epoch: "map is_stop (next_calls (?N it + m) it)
                 = replicate (?N it) False @ replicate m True"
    and emit: "0 \<notin> set (self_buckets it) \<Longrightarrow>
                 map is_batch (next_calls (?N it) it) = replicate (?N it) True"
    if a: "epoch_start it" "0 < self_batch_size it"
  proof -
    have inv: "iter_inv it" using a(1) epoch_start_reachable reachable_inv by blast
    have c: "self_curr_idx it = 0" using a(1) by (rule epoch_start_cursor)
    have N: "?N it = length (self_idx it) - self_curr_idx it"
      using inv a(2) c unfolding iter_inv_def by simp
    show "map is_stop (next_calls (?N it + m) it)
                 = replicate (?N it) False @ replicate m True"
      using next_calls_epoch[OF N] c by simp
    show "map is_batch (next_calls (?N it) it) = replicate (?N it) True"
      if "0 \<notin> set (self_buckets it)"
      using next_calls_emit[OF N inv that] .
  qed
  show ?thesis
  proof (intro conjI impI; (elim conjE)?)
    assume h: ?init ?pos
    show ?table using table[OF h] .
    show ?offs by (intro allI offsets_set[OF h(2)])
  next
    assume h: ?start ?bpos
    show ?epoch using epoch[OF h] .
    show ?emit if ?wide using emit[OF h that] .
  qed
qed

theorem index_table_and_epoch_witness:
  "map_sum id (\<lambda>self. (self_idx self, map is_stop (next_calls 4 self),
                        map is_batch (next_calls 3 self)))
     (returned (BucketSentenceIter_init [[0, 1], [2], [0, 2, 1, 0], [5, 5, 5], [6, 6], []] 2 (- 1)
                  (\<lambda>i. i) (Some [4, 2]) ''data'' ''softmax_label''))
     = Inr ([(0, 0), (0, 2), (1, 0)], [False, False, False, True], [True, True, True])"
proof -
  let ?ss = "[[0, 1], [2], [0, 2, 1, 0], [5, 5, 5], [6, 6], []] :: int list list"
  let ?c = "BucketSentenceIter_init ?ss 2 (- 1) (\<lambda>i. i) (Some [4, 2]) ''data'' ''softmax_label''"
  let ?D = "[[[0, 1], [2, - 1], [6, 6], [- 1, - 1]], [[0, 2, 1, 0], [5, 5, 5, - 1]]] :: int list list list"
  have ev: "map_sum id (\<lambda>self. (self_data self, self_batch_size self, self_buckets self))
              (returned ?c) = Inr (?D, 2, [2, 4])"
    by code_simp
  then obtain self where s: "returned ?c = Inr self" by (cases "returned ?c") auto
  have f: "self_data self = ?D" "self_batch_size self = 2" "self_buckets self = [2, 4]"
    using ev s by simp_all
  have es: "epoch_start self" using s by (rule epoch_start_init)
  have N: "sum_list (map (\<lambda>buck. length buck div nat 2) ?D) = 3" by code_simp
  have T: "concat (map (\<lambda>(i, buck). map (\<lambda>q. (i, int q * 2)) [0..<length buck div nat 2])
                     (enumerate 0 ?D)) = [(0, 0), (0, 2), (1, 0)]"
    by code_simp
  note t = index_table_and_epoch[of ?ss 2 "- 1" "\<lambda>i. i" "Some [4, 2]" "''data''"
             "''softmax_label''" self self 1]
  have h1: "returned ?c = Inr self \<and> 0 < (2::int)" using s by simp
  have h2: "epoch_start self \<and> 0 < self_batch_size self" using es f(2) by simp
  have h3: "0 \<notin> set (self_buckets self)" using f(3) by simp
  have A: "self_idx self = [(0, 0), (0, 2), (1, 0)]"
    using t[THEN conjunct1, THEN mp, OF h1, THEN conjunct1] unfolding f T .
  have B: "map is_stop (next_calls (3 + 1) self) = replicate 3 False @ replicate 1 True"
    using t[THEN conjunct2, THEN mp, OF h2, THEN conjunct1] unfolding f N .
  have C: "map is_batch (next_calls 3 self) = replicate 3 True"
    using t[THEN conjunct2, THEN mp, OF h2, THEN conjunct2, THEN mp, OF h3] unfolding f N .
  have r: "replicate 3 False @ replicate 1 True = [False, False, False, True]"
    "replicate 3 True = [True, True, True]" "3 + 1 = (4::nat)"
    by (simp_all add: numeral_3_eq_3)
  show ?thesis using s A B[unfolded r] C[unfolded r] by (simp del: next_calls.simps)
qed

theorem successful_calls_counterexample:
  "map_sum id
     (\<lambda>self. (sum_list (map (\<lambda>buck. int (length buck) div self_batch_size self) (self_data self)),
               map (map_sum id (\<lambda>_. ())) (next_calls 2 self),
               successful_calls 2 self))
     (returned (BucketSentenceIter_init [[]] 1 (- 1) (\<lambda>i. i) None ''data'' ''softmax_label''))
     = Inr (1, [Inl IndexError, Inl StopIteration], 0)
   \<and> map_sum id
       (\<lambda>self. (sum_list (map (\<lambda>buck. int (length buck) div self_batch_size self) (self_data self)),
                 self_idx self,
                 map (map_sum id (\<lambda>_. ())) (next_calls 1 self)))
       (returned (BucketSentenceIter_init [[1, 2]] (- 1) (- 1) (\<lambda>i. i) (Some [3])
                    ''data'' ''softmax_label''))
       = Inr (- 1, [], [Inl StopIteration])"
  by code_simp

lemma next_Inr:
  assumes "BucketSentenceIter_next self = (Inr batch, self')"
  obtains i j where "i < length (self_data self)" "self_data self ! i \<noteq> []"
    "length (hd (self_data self ! i)) \<noteq> 0"
    "db_data batch = [py_slice (self_data self ! i) j (j + self_batch_size self)]"
    "db_label batch = [map (\<lambda>row. tl row @ [self_dtype self (self_invalid_label self)])
                         (py_slice (self_data self ! i) j (j + self_batch_size self))]"
    "map snd (db_provide_label batch) = map snd (db_provide_data batch)"
  using assms
  by (auto simp: BucketSentenceIter_next_def py_nth_def shift_label_def Let_def
           split: sum.splits prod.splits if_splits)

lemma py_slice_subset: "set (py_slice xs lo hi) \<subseteq> set xs"
  unfolding py_slice_def Let_def
  by (meson set_take_subset set_drop_subset subset_trans)

text \<open>
  C2: every batch that \<open>next\<close> returns on a reachable iterator carries one data array and
  one label array with the same number of rows and the same shape descriptor; every row
  is non-empty, its label row has the same width, the label at each position but the last
  is the data at the next position, and the last label is the invalid label in the
  array's element type.
\<close>

theorem label_is_shifted_data:
  assumes "reachable self" "BucketSentenceIter_next self = (Inr batch, self')"
  shows "\<exists>dat lab. db_data batch = [dat] \<and> db_label batch = [lab] \<and> length lab = length dat
     \<and> (\<forall>n<length dat. dat ! n \<noteq> [] \<and> length (lab ! n) = length (dat ! n)
          \<and> (\<forall>p. Suc p < length (dat ! n) \<longrightarrow> lab ! n ! p = dat ! n ! Suc p)
          \<and> lab ! n ! (length (dat ! n) - 1) = self_dtype self (self_invalid_label self))
     \<and> map snd (db_provide_label batch) = map snd (db_provide_data batch)"
proof -
  from next_Inr[OF assms(2)] obtain i j where
    b: "i < length (self_data self)" "self_data self ! i \<noteq> []"
    "length (hd (self_data self ! i)) \<noteq> 0"
    "db_data batch = [py_slice (self_data self ! i) j (j + self_batch_size self)]"
    "db_label batch = [map (\<lambda>row. tl row @ [self_dtype self (self_invalid_label self)])
                         (py_slice (self_data self ! i) j (j + self_batch_size self))]"
    "map snd (db_provide_label batch) = map snd (db_provide_data batch)" by blast
  define arr where "arr = self_data self ! i"
  define dat where "dat = py_slice arr j (j + self_batch_size self)"
  define fill where "fill = self_dtype self (self_invalid_label self)"
  define lab where "lab = map (\<lambda>row. tl row @ [fill]) dat"
  have inv: "iter_inv self" using assms(1) by (rule reachable_inv)
  have width: "int (length r) = self_buckets self ! i" if "r \<in> set arr" for r
    using inv b(1) that unfolding iter_inv_def arr_def by blast
  have "hd arr \<in> set arr" using b(2) by (simp add: arr_def)
  then have "self_buckets self ! i \<noteq> 0" using width[of "hd arr"] b(3) by (auto simp: arr_def)
  then have row: "r \<noteq> []" if "r \<in> set dat" for r
    using width[of r] that py_slice_subset[of arr j "j + self_batch_size self"]
    by (auto simp: dat_def)
  have rows: "dat ! n \<noteq> [] \<and> length (lab ! n) = length (dat ! n)
          \<and> (\<forall>p. Suc p < length (dat ! n) \<longrightarrow> lab ! n ! p = dat ! n ! Suc p)
          \<and> lab ! n ! (length (dat ! n) - 1) = fill" if n: "n < length dat" for n
  proof -
    have ne: "dat ! n \<noteq> []" using row n by simp
    have l: "lab ! n = tl (dat ! n) @ [fill]" using n by (simp add: lab_def)
    have "lab ! n ! p = dat ! n ! Suc p" if "Suc p < length (dat ! n)" for p
      using that by (cases "dat ! n") (simp_all add: l nth_append)
    moreover have "lab ! n ! (length (dat ! n) - 1) = fill"
      by (simp add: l nth_append)
    moreover have "length (lab ! n) = length (dat ! n)" using ne by (simp add: l)
    ultimately show ?thesis using ne by blast
  qed
  have "db_data batch = [dat]" "db_label batch = [lab]" "length lab = length dat"
    using b(4,5) by (simp_all add: dat_def lab_def arr_def fill_def)
  then show ?thesis using rows b(6) unfolding fill_def by blast
qed

theorem label_is_shifted_data_witness:
  "map_sum id (\<lambda>self. map_sum id (\<lambda>b. (db_data b, db_label b))
                        (fst (BucketSentenceIter_next self)))
     (returned (BucketSentenceIter_init [[0, 1], [2], [0, 2, 1, 0], [5, 5, 5], [6, 6], []] 2 (- 1)
                  (\<lambda>i. i) (Some [4, 2]) ''data'' ''softmax_label''))
     = Inr (Inr ([[[0, 1], [2, - 1]]], [[[1, - 1], [- 1, - 1]]]))"
proof -
  let ?c = "BucketSentenceIter_init [[0, 1], [2], [0, 2, 1, 0], [5, 5, 5], [6, 6], []] 2 (- 1)
              (\<lambda>i. i) (Some [4, 2]) ''data'' ''softmax_label''"
  have ev: "map_sum id (\<lambda>self. (map_sum id (\<lambda>b. (db_data b, db_label b))
                                   (fst (BucketSentenceIter_next self)),
                                 self_invalid_label self))
              (returned ?c) = Inr (Inr ([[[0, 1], [2, - 1]]], [[[1, - 1], [- 1, - 1]]]), - 1)"
    by code_simp
  then obtain self where s: "returned ?c = Inr self" by (cases "returned ?c") auto
  have r: "reachable self" using s by (rule reachable_init)
  obtain batch self' where n: "BucketSentenceIter_next self = (Inr batch, self')"
    using ev s by (cases "BucketSentenceIter_next self"; cases "fst (BucketSentenceIter_next self)") auto
  from label_is_shifted_data[OF r n] obtain dat lab where
    "db_data batch = [dat]" "db_label batch = [lab]" "length lab = length dat" by blast
  then show ?thesis using ev s n by simp
qed

end
